theory Spec2Isabelle
  imports Complex_Main
begin

section \<open>Value model\<close>

text \<open>
  The codec of \<^verbatim>\<open>src/index.ts\<close> works on JavaScript values.  The model covers the
  values the two functions distinguish: primitives, arrays (with empty slots), plain
  objects, Map, Set, Error, Blob/File, the transferable host objects, functions and
  instances of application classes.  Object graphs are trees: no value is shared or
  cyclic.  Objects that the code mutates or compares by identity carry an identity.
  Values have no \<^verbatim>\<open>toJSON\<close> method and no accessor properties, the built-in
  constructors carry none of the three symbols, and symbols and dates are left out.
  A finite number is a rational; \<^verbatim>\<open>-0\<close>, \<^verbatim>\<open>NaN\<close> and the infinities are values of
  their own.
\<close>

datatype jsnum = Finite rat | NegZero | NaN | PosInf | NegInf

datatype port_end = Port1 | Port2

datatype jsval =
    VUndefined
  | VEmpty
  | VNull
  | VBool bool
  | VNum jsnum
  | VBigInt int
  | VStr string
  | VArr "jsval list"
  | VObj "(string \<times> jsval) list"
  | VMap "(jsval \<times> jsval) list"
  | VSet "jsval list"
  | VErr nat string jsval
  | VBlob nat
  | VPort nat port_end
  | VStream nat
  | VBuffer nat
  | VView nat nat
  | VFn nat
  | VProxy jsval
  | VCustom nat "(string \<times> jsval) list"

text \<open>
  \<open>VEmpty\<close> is an array slot without an own property (a hole); reading it gives
  \<open>undefined\<close>.  \<open>VErr i name cause\<close> is the Error object with identity \<open>i\<close>; a missing
  \<open>cause\<close> is \<open>VUndefined\<close>.  \<open>VView v b\<close> is a view on the buffer \<open>VBuffer b\<close>.
  \<open>VFn f\<close> is the function object \<open>f\<close>; \<open>VProxy p\<close> is the closure the decoder builds
  around the endpoint \<open>p\<close>.  \<open>VCustom c props\<close> is an object whose prototype's
  constructor is the function \<open>c\<close>, with own enumerable properties \<open>props\<close>.
  The keys of a \<open>VObj\<close> are pairwise distinct.
\<close>

text \<open>
  The text that \<^verbatim>\<open>JSON.stringify\<close> writes and \<^verbatim>\<open>JSON.parse\<close> reads, as a tree.
  Writing and reading a string or a finite number gives the same string or number.
\<close>

datatype json =
    JNull
  | JBool bool
  | JNum rat
  | JStr string
  | JArr "json list"
  | JObj "(string \<times> json) list"

datatype error = TypeError | SyntaxError | UnknownTag jsval | OutOfFuel | Unmodelled

text \<open>
  The host environment: the values stored under the three symbols
  \<^verbatim>\<open>serdesTagSymbol\<close>, \<^verbatim>\<open>serdesSerializeSymbol\<close> and \<^verbatim>\<open>serdesDeserializeSymbol\<close>
  on each function object, and what calling function \<open>f\<close> with a \<open>this\<close> value and one
  argument returns.  Hooks are pure and return normally.
\<close>

record env =
  sym_tag :: "nat \<Rightarrow> jsval"
  sym_serialize :: "nat \<Rightarrow> jsval"
  sym_deserialize :: "nat \<Rightarrow> jsval"
  call :: "nat \<Rightarrow> jsval \<Rightarrow> jsval \<Rightarrow> jsval"

text \<open>
  What outlives one call of \<^verbatim>\<open>serializer\<close>: the next fresh channel, the
  \<^verbatim>\<open>onmessage\<close> handlers installed on the first ports (channel and wrapped function),
  and the assignments made to the \<^verbatim>\<open>cause\<close> of Error objects of the input (identity
  and new value), in order.
\<close>

record world =
  next_chan :: nat
  handlers :: "(nat \<times> jsval) list"
  writes :: "(nat \<times> jsval) list"

record sst =
  verbatim :: "jsval list"
  transferables :: "jsval list"
  revokables :: "jsval list"
  wld :: world

record ser_result =
  data :: jsval
  res_transferables :: "jsval list"
  res_revokables :: "jsval list"

section \<open>Helpers of the host\<close>

fun truthy :: "jsval \<Rightarrow> bool" where
  "truthy VUndefined = False"
| "truthy VEmpty = False"
| "truthy VNull = False"
| "truthy (VBool b) = b"
| "truthy (VNum (Finite r)) = (r \<noteq> 0)"
| "truthy (VNum NegZero) = False"
| "truthy (VNum NaN) = False"
| "truthy (VNum PosInf) = True"
| "truthy (VNum NegInf) = True"
| "truthy (VBigInt i) = (i \<noteq> 0)"
| "truthy (VStr s) = (s \<noteq> [])"
| "truthy _ = True"

text \<open>Reading a slot: a hole reads as \<open>undefined\<close>.\<close>

fun rd :: "jsval \<Rightarrow> jsval" where
  "rd VEmpty = VUndefined"
| "rd v = v"

text \<open>\<^verbatim>\<open>value[i]\<close> on an array: out of range and holes give \<open>undefined\<close>.\<close>

definition elem :: "jsval list \<Rightarrow> nat \<Rightarrow> jsval" where
  "elem xs i = (if i < length xs then rd (xs ! i) else VUndefined)"

text \<open>Storing a reviver result in an array: \<open>undefined\<close> deletes the element.\<close>

fun to_slot :: "jsval \<Rightarrow> jsval" where
  "to_slot VUndefined = VEmpty"
| "to_slot v = v"

text \<open>\<^verbatim>\<open>Set.prototype.add\<close> on the insertion-ordered sets of handles.\<close>

definition set_add :: "jsval list \<Rightarrow> jsval \<Rightarrow> jsval list" where
  "set_add xs x = (if x \<in> set xs then xs else xs @ [x])"

definition is_index :: "rat \<Rightarrow> bool" where
  "is_index r = (0 \<le> r \<and> of_int \<lfloor>r\<rfloor> = r)"

text \<open>
  \<^verbatim>\<open>verbatim[k]\<close>.  A number is an index when it is a non-negative integer; other
  numbers, \<open>undefined\<close>, \<open>null\<close> and booleans name no element.  Other keys are outside
  the model.
\<close>

fun table_get :: "jsval list \<Rightarrow> jsval \<Rightarrow> error + jsval" where
  "table_get T (VNum (Finite r)) =
     Inr (if is_index r \<and> nat \<lfloor>r\<rfloor> < length T then T ! nat \<lfloor>r\<rfloor> else VUndefined)"
| "table_get T (VNum NegZero) = Inr (if 0 < length T then T ! 0 else VUndefined)"
| "table_get T (VNum _) = Inr VUndefined"
| "table_get T VUndefined = Inr VUndefined"
| "table_get T VEmpty = Inr VUndefined"
| "table_get T VNull = Inr VUndefined"
| "table_get T (VBool b) = Inr VUndefined"
| "table_get T _ = Inl Unmodelled"

definition ref_json :: "nat \<Rightarrow> json" where
  "ref_json pos = JArr [JStr ''_'', JStr ''_ref'', JNum (of_nat pos)]"

text \<open>The two sentinel slots put before an array whose first element is \<^verbatim>\<open>'_'\<close>.\<close>

definition escape_prefix :: "jsval list \<Rightarrow> json list" where
  "escape_prefix xs = (if elem xs 0 = VStr ''_'' then [JStr ''_'', JStr ''_''] else [])"

definition push :: "sst \<Rightarrow> jsval \<Rightarrow> sst" where
  "push st v = st\<lparr>verbatim := verbatim st @ [v]\<rparr>"

section \<open>The encoder's second pass\<close>

text \<open>
  The reviver of \<^verbatim>\<open>serializer\<close> (lines 126-133), called by \<^verbatim>\<open>JSON.parse\<close> bottom-up:
  an array \<^verbatim>\<open>['_', '_ref', k]\<close> is replaced by \<^verbatim>\<open>verbatim[k]\<close>.
\<close>

definition enc_reviver :: "jsval list \<Rightarrow> jsval \<Rightarrow> error + jsval" where
  "enc_reviver T v =
     (case v of
        VArr xs \<Rightarrow>
          if elem xs 0 = VStr ''_'' \<and> elem xs 1 = VStr ''_ref'' then table_get T (elem xs 2)
          else Inr v
      | _ \<Rightarrow> Inr v)"

fun enc_revive :: "jsval list \<Rightarrow> json \<Rightarrow> error + jsval"
  and enc_revive_list :: "jsval list \<Rightarrow> json list \<Rightarrow> error + jsval list"
  and enc_revive_props :: "jsval list \<Rightarrow> (string \<times> json) list \<Rightarrow> error + (string \<times> jsval) list"
where
  "enc_revive T JNull = Inr VNull"
| "enc_revive T (JBool b) = Inr (VBool b)"
| "enc_revive T (JNum r) = Inr (VNum (Finite r))"
| "enc_revive T (JStr s) = Inr (VStr s)"
| "enc_revive T (JArr js) =
     (case enc_revive_list T js of Inl e \<Rightarrow> Inl e | Inr xs \<Rightarrow> enc_reviver T (VArr xs))"
| "enc_revive T (JObj ps) =
     (case enc_revive_props T ps of Inl e \<Rightarrow> Inl e | Inr qs \<Rightarrow> Inr (VObj qs))"
| "enc_revive_list T [] = Inr []"
| "enc_revive_list T (j # js) =
     (case enc_revive T j of Inl e \<Rightarrow> Inl e
      | Inr x \<Rightarrow> (case enc_revive_list T js of Inl e \<Rightarrow> Inl e | Inr xs \<Rightarrow> Inr (to_slot x # xs)))"
| "enc_revive_props T [] = Inr []"
| "enc_revive_props T ((k, j) # ps) =
     (case enc_revive T j of Inl e \<Rightarrow> Inl e
      | Inr x \<Rightarrow> (case enc_revive_props T ps of Inl e \<Rightarrow> Inl e
          | Inr qs \<Rightarrow> Inr (if x = VUndefined then qs else (k, x) # qs)))"

section \<open>The encoder\<close>

text \<open>
  \<open>ser_val\<close> is one step of \<^verbatim>\<open>JSON.stringify(data, replacer)\<close> (lines 46-126): the
  replacer is applied to the value read from its holder, and the value it returns is
  written, which applies the same step to the elements of an array and the properties of
  an object.  The cases follow the replacer's tests in their order.  The strings and the
  table index inside the tagged arrays the replacer builds pass the replacer unchanged
  (a string and a number reach line 53 or line 125) and are written directly; the inner
  \<^verbatim>\<open>['_', '_ref', pos]\<close> of an \<^verbatim>\<open>'_err'\<close> array is returned by line 48.  No value of
  the input is in the fresh \<^verbatim>\<open>rawResultSet\<close>.

  The fuel bounds the depth of serialize hooks whose payload holds further custom
  objects; the walk over a payload is the only recursion that is not on a part of the
  value.  \<open>serializer\<close> is the whole function.
\<close>

function ser_val :: "nat \<Rightarrow> env \<Rightarrow> sst \<Rightarrow> jsval \<Rightarrow> error + (sst \<times> json)"
  and ser_list :: "nat \<Rightarrow> env \<Rightarrow> sst \<Rightarrow> jsval list \<Rightarrow> error + (sst \<times> json list)"
  and ser_props :: "nat \<Rightarrow> env \<Rightarrow> sst \<Rightarrow> (string \<times> jsval) list \<Rightarrow> error + (sst \<times> (string \<times> json) list)"
  and ser_entries :: "nat \<Rightarrow> env \<Rightarrow> sst \<Rightarrow> (jsval \<times> jsval) list \<Rightarrow> error + (sst \<times> json list)"
  and serializer :: "nat \<Rightarrow> env \<Rightarrow> world \<Rightarrow> jsval \<Rightarrow> error + (ser_result \<times> world)"
where
  \<comment> \<open>line 50: undefined\<close>
  "ser_val f en st VUndefined = Inr (st, JArr [JStr ''_'', JStr ''_''])"
| "ser_val f en st VEmpty = Inr (st, JArr [JStr ''_'', JStr ''_''])"
  \<comment> \<open>line 53 for the falsy ones, line 125 for the others; then what JSON.stringify writes\<close>
| "ser_val f en st VNull = Inr (st, JNull)"
| "ser_val f en st (VBool b) = Inr (st, JBool b)"
| "ser_val f en st (VNum (Finite r)) = Inr (st, JNum r)"
| "ser_val f en st (VNum NegZero) = Inr (st, JNum 0)"
| "ser_val f en st (VNum NaN) = Inr (st, JNull)"
| "ser_val f en st (VNum PosInf) = Inr (st, JNull)"
| "ser_val f en st (VNum NegInf) = Inr (st, JNull)"
| "ser_val f en st (VBigInt i) = Inl TypeError"
| "ser_val f en st (VStr s) = Inr (st, JStr s)"
  \<comment> \<open>line 57, or line 125 for an array that does not start with the sentinel\<close>
| "ser_val f en st (VArr xs) =
     (case ser_list f en st xs of Inl e \<Rightarrow> Inl e
      | Inr (st', js) \<Rightarrow> Inr (st', JArr (escape_prefix xs @ js)))"
  \<comment> \<open>lines 61-63; the array of entries and each entry are arrays that pass the replacer too\<close>
| "ser_val f en st (VMap es) =
     (case ser_entries f en st es of Inl e \<Rightarrow> Inl e
      | Inr (st', js) \<Rightarrow> Inr (st', JArr [JStr ''_'', JStr ''Map'', JArr js]))"
  \<comment> \<open>lines 65-67\<close>
| "ser_val f en st (VSet xs) =
     (case ser_list f en st xs of Inl e \<Rightarrow> Inl e
      | Inr (st', js) \<Rightarrow> Inr (st', JArr [JStr ''_'', JStr ''Set'', JArr (escape_prefix xs @ js)]))"
  \<comment> \<open>lines 70-74\<close>
| "ser_val f en st (VBlob b) = Inr (push st (VBlob b), ref_json (length (verbatim st)))"
  \<comment> \<open>lines 76-84; the table holds the object itself, so the assignment shows there\<close>
| "ser_val f en st (VErr i name cause) =
     (let pos = length (verbatim st);
          st1 = push st (VErr i name cause);
          j = JArr [JStr ''_'', JStr ''_err'', ref_json pos, JStr name]
      in if truthy cause then
           (case serializer f en (wld st1) cause of Inl e \<Rightarrow> Inl e
            | Inr (r, w) \<Rightarrow>
                Inr (st1\<lparr>verbatim := (verbatim st1)[pos := VErr i name (data r)],
                         wld := w\<lparr>writes := writes w @ [(i, data r)]\<rparr>\<rparr>, j))
         else Inr (st1, j))"
  \<comment> \<open>lines 86-91\<close>
| "ser_val f en st (VPort c e) =
     Inr ((push st (VPort c e))\<lparr>transferables := set_add (transferables st) (VPort c e)\<rparr>,
          ref_json (length (verbatim st)))"
| "ser_val f en st (VStream s) =
     Inr ((push st (VStream s))\<lparr>transferables := set_add (transferables st) (VStream s)\<rparr>,
          ref_json (length (verbatim st)))"
| "ser_val f en st (VBuffer b) =
     Inr ((push st (VBuffer b))\<lparr>transferables := set_add (transferables st) (VBuffer b)\<rparr>,
          ref_json (length (verbatim st)))"
  \<comment> \<open>lines 92-97\<close>
| "ser_val f en st (VView v b) =
     Inr ((push st (VView v b))\<lparr>transferables := set_add (transferables st) (VBuffer b)\<rparr>,
          ref_json (length (verbatim st)))"
  \<comment> \<open>lines 100-119; the second port, an element of the array returned, meets lines 86-91\<close>
| "ser_val f en st (VFn g) =
     (let c = next_chan (wld st);
          w = (wld st)\<lparr>next_chan := Suc c, handlers := handlers (wld st) @ [(c, VFn g)]\<rparr>;
          st1 = st\<lparr>transferables := set_add (transferables st) (VPort c Port2),
                  revokables := set_add (revokables st) (VPort c Port1), wld := w\<rparr>;
          st2 = (push st1 (VPort c Port2))
                  \<lparr>transferables := set_add (transferables st1) (VPort c Port2)\<rparr>
      in Inr (st2, JArr [JStr ''_'', JStr ''_fn'', ref_json (length (verbatim st))]))"
| "ser_val f en st (VProxy p) =
     (let c = next_chan (wld st);
          w = (wld st)\<lparr>next_chan := Suc c, handlers := handlers (wld st) @ [(c, VProxy p)]\<rparr>;
          st1 = st\<lparr>transferables := set_add (transferables st) (VPort c Port2),
                  revokables := set_add (revokables st) (VPort c Port1), wld := w\<rparr>;
          st2 = (push st1 (VPort c Port2))
                  \<lparr>transferables := set_add (transferables st1) (VPort c Port2)\<rparr>
      in Inr (st2, JArr [JStr ''_'', JStr ''_fn'', ref_json (length (verbatim st))]))"
  \<comment> \<open>lines 120-124, else line 125 and the own properties are written\<close>
| "ser_val f en st (VCustom c props) =
     (if truthy (sym_tag en c) \<and> truthy (sym_serialize en c) then
        (case sym_serialize en c of
           VFn g \<Rightarrow>
             (case f of
                0 \<Rightarrow> Inl OutOfFuel
              | Suc f' \<Rightarrow>
                  (case ser_val f' en st (sym_tag en c) of Inl e \<Rightarrow> Inl e
                   | Inr (st1, jt) \<Rightarrow>
                       (case ser_val f' en st1 (call en g (VFn c) (VCustom c props)) of
                          Inl e \<Rightarrow> Inl e
                        | Inr (st2, jp) \<Rightarrow>
                            Inr (st2, JArr [JStr ''_'', JStr ''_custom'', jt, jp]))))
         | VProxy p \<Rightarrow> Inl Unmodelled
         | _ \<Rightarrow> Inl TypeError)
      else
        (case ser_props f en st props of Inl e \<Rightarrow> Inl e
         | Inr (st', js) \<Rightarrow> Inr (st', JObj js)))"
  \<comment> \<open>line 125\<close>
| "ser_val f en st (VObj props) =
     (case ser_props f en st props of Inl e \<Rightarrow> Inl e
      | Inr (st', js) \<Rightarrow> Inr (st', JObj js))"
| "ser_list f en st [] = Inr (st, [])"
| "ser_list f en st (x # xs) =
     (case ser_val f en st x of Inl e \<Rightarrow> Inl e
      | Inr (st1, j) \<Rightarrow>
          (case ser_list f en st1 xs of Inl e \<Rightarrow> Inl e
           | Inr (st2, js) \<Rightarrow> Inr (st2, j # js)))"
| "ser_props f en st [] = Inr (st, [])"
| "ser_props f en st ((k, v) # ps) =
     (case ser_val f en st v of Inl e \<Rightarrow> Inl e
      | Inr (st1, j) \<Rightarrow>
          (case ser_props f en st1 ps of Inl e \<Rightarrow> Inl e
           | Inr (st2, js) \<Rightarrow> Inr (st2, (k, j) # js)))"
| "ser_entries f en st [] = Inr (st, [])"
| "ser_entries f en st ((k, v) # es) =
     (case ser_val f en st k of Inl e \<Rightarrow> Inl e
      | Inr (st1, jk) \<Rightarrow>
          (case ser_val f en st1 v of Inl e \<Rightarrow> Inl e
           | Inr (st2, jv) \<Rightarrow>
               (case ser_entries f en st2 es of Inl e \<Rightarrow> Inl e
                | Inr (st3, js) \<Rightarrow> Inr (st3, JArr (escape_prefix [k, v] @ [jk, jv]) # js))))"
  \<comment> \<open>lines 40-46 and 126-139\<close>
| "serializer f en w v =
     (case ser_val f en \<lparr>verbatim = [], transferables = [], revokables = [], wld = w\<rparr> v of
        Inl e \<Rightarrow> Inl e
      | Inr (st, j) \<Rightarrow>
          (case enc_revive (verbatim st) j of Inl e \<Rightarrow> Inl e
           | Inr d \<Rightarrow>
               Inr (\<lparr>data = d, res_transferables = transferables st,
                     res_revokables = revokables st\<rparr>, wld st)))"

  by pat_completeness auto


termination
  apply (relation "inv_image (less_than <*lex*> less_than <*lex*> less_than)
    (\<lambda>x. case x of
       Inl (Inl (f, en, st, v)) \<Rightarrow> (f, size v, 0::nat)
     | Inl (Inr (f, en, st, xs)) \<Rightarrow> (f, size_list size xs, 0)
     | Inr (Inl (f, en, st, ps)) \<Rightarrow> (f, size_list (size_prod (\<lambda>_. 0) size) ps, 0)
     | Inr (Inr (Inl (f, en, st, es))) \<Rightarrow> (f, size_list (size_prod size size) es, 0)
     | Inr (Inr (Inr (f, en, w, v))) \<Rightarrow> (f, size v, 1))")
  apply (simp_all add: wf_lex_prod)
  done

section \<open>The registry\<close>

text \<open>
  \<^verbatim>\<open>deserializerTable\<close> (line 143) has no prototype: it holds exactly the entries that
  \<^verbatim>\<open>register\<close> stored, each the reconstruct hook bound to its constructor
  (the hook and the \<open>this\<close> value).
\<close>

type_synonym registry = "string \<rightharpoonup> (jsval \<times> jsval)"

text \<open>\<^verbatim>\<open>typeof v === 'function'\<close> and \<^verbatim>\<open>typeof v === 'string'\<close>.\<close>

fun is_function :: "jsval \<Rightarrow> bool" where
  "is_function (VFn g) = True"
| "is_function (VProxy p) = True"
| "is_function _ = False"

fun is_string :: "jsval \<Rightarrow> bool" where
  "is_string (VStr s) = True"
| "is_string _ = False"

text \<open>
  Reading a symbol-keyed property: \<open>undefined\<close> and \<open>null\<close> have no properties and the
  read throws; a function object has the ones the environment gives it; the closures
  the decoder builds, like every other value of the model, have none.
\<close>

fun get_sym :: "(nat \<Rightarrow> jsval) \<Rightarrow> jsval \<Rightarrow> error + jsval" where
  "get_sym tab VUndefined = Inl TypeError"
| "get_sym tab VEmpty = Inl TypeError"
| "get_sym tab VNull = Inl TypeError"
| "get_sym tab (VFn g) = Inr (tab g)"
| "get_sym tab _ = Inr VUndefined"

text \<open>
  \<^verbatim>\<open>deserializer.register\<close> (lines 221-225).  The conjunction is evaluated from the
  left and stops at the first false test, so no property of a non-function is read.
\<close>

definition register :: "env \<Rightarrow> registry \<Rightarrow> jsval \<Rightarrow> error + registry" where
  "register en reg ctor =
     (if \<not> is_function ctor then Inr reg
      else case get_sym (sym_tag en) ctor of Inl e \<Rightarrow> Inl e
        | Inr t \<Rightarrow>
            (case t of
               VStr tag \<Rightarrow>
                 (case get_sym (sym_deserialize en) ctor of Inl e \<Rightarrow> Inl e
                  | Inr h \<Rightarrow> if is_function h then Inr (reg(tag \<mapsto> (h, ctor))) else Inr reg)
             | _ \<Rightarrow> Inr reg))"

text \<open>Calling a bound hook with one argument.  Calling a decoder closure starts a remote
  call, which is outside the model.\<close>

fun call_bound :: "env \<Rightarrow> jsval \<times> jsval \<Rightarrow> jsval \<Rightarrow> error + jsval" where
  "call_bound en (VFn g, this) arg = Inr (call en g this arg)"
| "call_bound en (VProxy p, this) arg = Inl Unmodelled"
| "call_bound en (_, this) arg = Inl TypeError"

text \<open>The property key made from \<^verbatim>\<open>value[2]\<close> in \<^verbatim>\<open>deserializerTable[value[2]]\<close>.\<close>

fun prop_key :: "jsval \<Rightarrow> error + string" where
  "prop_key (VStr s) = Inr s"
| "prop_key VUndefined = Inr ''undefined''"
| "prop_key VEmpty = Inr ''undefined''"
| "prop_key VNull = Inr ''null''"
| "prop_key (VBool b) = Inr (if b then ''true'' else ''false'')"
| "prop_key _ = Inl Unmodelled"

section \<open>Map and Set construction\<close>

text \<open>
  Objects made by \<^verbatim>\<open>JSON.parse\<close> or by a constructor are new, so they equal no other
  key.  Objects with an identity are compared by it, primitives by value with the two
  zeros identified (SameValueZero); the key \<open>-0\<close> is stored as \<open>+0\<close>.
\<close>

fun is_fresh_obj :: "jsval \<Rightarrow> bool" where
  "is_fresh_obj (VArr xs) = True"
| "is_fresh_obj (VObj ps) = True"
| "is_fresh_obj (VMap es) = True"
| "is_fresh_obj (VSet xs) = True"
| "is_fresh_obj (VCustom c ps) = True"
| "is_fresh_obj (VProxy p) = True"
| "is_fresh_obj _ = False"

fun key_norm :: "jsval \<Rightarrow> jsval" where
  "key_norm (VNum NegZero) = VNum (Finite 0)"
| "key_norm VEmpty = VUndefined"
| "key_norm v = v"

fun ident :: "jsval \<Rightarrow> jsval" where
  "ident (VErr i name cause) = VErr i [] VUndefined"
| "ident (VView v b) = VView v 0"
| "ident v = key_norm v"

definition svz :: "jsval \<Rightarrow> jsval \<Rightarrow> bool" where
  "svz a b = (\<not> is_fresh_obj a \<and> \<not> is_fresh_obj b \<and> ident a = ident b)"

fun map_set :: "(jsval \<times> jsval) list \<Rightarrow> jsval \<Rightarrow> jsval \<Rightarrow> (jsval \<times> jsval) list" where
  "map_set [] k v = [(key_norm k, v)]"
| "map_set ((k', v') # es) k v =
     (if svz k' k then (k', v) # es else (k', v') # map_set es k v)"

definition set_ins :: "jsval list \<Rightarrow> jsval \<Rightarrow> jsval list" where
  "set_ins xs x = (if list_ex (\<lambda>y. svz y x) xs then xs else xs @ [key_norm x])"

fun lookup_prop :: "(string \<times> jsval) list \<Rightarrow> string \<Rightarrow> jsval" where
  "lookup_prop [] k = VUndefined"
| "lookup_prop ((k', v) # ps) k = (if k' = k then v else lookup_prop ps k)"

text \<open>An element the Map constructor reads must be an object; its \<^verbatim>\<open>[0]\<close> and \<^verbatim>\<open>[1]\<close>
  are the key and the value.\<close>

fun entry_of :: "jsval \<Rightarrow> error + (jsval \<times> jsval)" where
  "entry_of (VArr ys) = Inr (elem ys 0, elem ys 1)"
| "entry_of (VObj ps) = Inr (lookup_prop ps ''0'', lookup_prop ps ''1'')"
| "entry_of (VCustom c ps) = Inr (lookup_prop ps ''0'', lookup_prop ps ''1'')"
| "entry_of VUndefined = Inl TypeError"
| "entry_of VEmpty = Inl TypeError"
| "entry_of VNull = Inl TypeError"
| "entry_of (VBool b) = Inl TypeError"
| "entry_of (VNum n) = Inl TypeError"
| "entry_of (VBigInt i) = Inl TypeError"
| "entry_of (VStr s) = Inl TypeError"
| "entry_of _ = Inr (VUndefined, VUndefined)"

fun map_fill :: "(jsval \<times> jsval) list \<Rightarrow> jsval list \<Rightarrow> error + (jsval \<times> jsval) list" where
  "map_fill m [] = Inr m"
| "map_fill m (x # xs) =
     (case entry_of x of Inl e \<Rightarrow> Inl e | Inr (k, v) \<Rightarrow> map_fill (map_set m k v) xs)"

text \<open>\<^verbatim>\<open>new Map(x)\<close> and \<^verbatim>\<open>new Set(x)\<close>: \<open>undefined\<close> and \<open>null\<close> give the empty
  collection, an array is iterated (holes read as \<open>undefined\<close>), a Map or a Set is
  iterated in its order.  Non-empty strings and objects with an iterator of their own
  are outside the model; everything else is not iterable.\<close>

fun map_ctor :: "jsval \<Rightarrow> error + jsval" where
  "map_ctor VUndefined = Inr (VMap [])"
| "map_ctor VEmpty = Inr (VMap [])"
| "map_ctor VNull = Inr (VMap [])"
| "map_ctor (VArr xs) = (case map_fill [] xs of Inl e \<Rightarrow> Inl e | Inr m \<Rightarrow> Inr (VMap m))"
| "map_ctor (VMap es) =
     (case map_fill [] (map (\<lambda>(k, v). VArr [k, v]) es) of Inl e \<Rightarrow> Inl e | Inr m \<Rightarrow> Inr (VMap m))"
| "map_ctor (VSet xs) = (case map_fill [] xs of Inl e \<Rightarrow> Inl e | Inr m \<Rightarrow> Inr (VMap m))"
| "map_ctor (VStr s) = (if s = [] then Inr (VMap []) else Inl TypeError)"
| "map_ctor (VCustom c ps) = Inl Unmodelled"
| "map_ctor _ = Inl TypeError"

fun set_ctor :: "jsval \<Rightarrow> error + jsval" where
  "set_ctor VUndefined = Inr (VSet [])"
| "set_ctor VEmpty = Inr (VSet [])"
| "set_ctor VNull = Inr (VSet [])"
| "set_ctor (VArr xs) = Inr (VSet (foldl set_ins [] xs))"
| "set_ctor (VMap es) = Inr (VSet (map (\<lambda>(k, v). VArr [k, v]) es))"
| "set_ctor (VSet xs) = Inr (VSet (foldl set_ins [] xs))"
| "set_ctor (VStr s) = (if s = [] then Inr (VSet []) else Inl Unmodelled)"
| "set_ctor (VCustom c ps) = Inl Unmodelled"
| "set_ctor _ = Inl TypeError"

section \<open>The decoder\<close>

text \<open>
  \<open>de_val\<close> is one step of \<^verbatim>\<open>JSON.stringify(data, replacer)\<close> in \<^verbatim>\<open>deserializer\<close>
  (lines 151-158): an object that is neither an array nor a plain object goes to the
  table and a reference is written for it; everything else is written as
  \<^verbatim>\<open>JSON.stringify\<close> writes it.  \<open>None\<close> is the case where nothing is written
  (\<open>undefined\<close> and functions): such an array element becomes \<^verbatim>\<open>null\<close>, such a
  property is left out.
\<close>

fun de_val :: "jsval list \<Rightarrow> jsval \<Rightarrow> error + (jsval list \<times> json option)"
  and de_list :: "jsval list \<Rightarrow> jsval list \<Rightarrow> error + (jsval list \<times> json list)"
  and de_props :: "jsval list \<Rightarrow> (string \<times> jsval) list \<Rightarrow> error + (jsval list \<times> (string \<times> json) list)"
where
  "de_val T (VArr xs) =
     (case de_list T xs of Inl e \<Rightarrow> Inl e | Inr (T', js) \<Rightarrow> Inr (T', Some (JArr js)))"
| "de_val T (VObj ps) =
     (case de_props T ps of Inl e \<Rightarrow> Inl e | Inr (T', js) \<Rightarrow> Inr (T', Some (JObj js)))"
| "de_val T VUndefined = Inr (T, None)"
| "de_val T VEmpty = Inr (T, None)"
| "de_val T (VFn g) = Inr (T, None)"
| "de_val T (VProxy p) = Inr (T, None)"
| "de_val T VNull = Inr (T, Some JNull)"
| "de_val T (VBool b) = Inr (T, Some (JBool b))"
| "de_val T (VNum (Finite r)) = Inr (T, Some (JNum r))"
| "de_val T (VNum NegZero) = Inr (T, Some (JNum 0))"
| "de_val T (VNum NaN) = Inr (T, Some JNull)"
| "de_val T (VNum PosInf) = Inr (T, Some JNull)"
| "de_val T (VNum NegInf) = Inr (T, Some JNull)"
| "de_val T (VBigInt i) = Inl TypeError"
| "de_val T (VStr s) = Inr (T, Some (JStr s))"
| "de_val T v = Inr (T @ [v], Some (ref_json (length T)))"
| "de_list T [] = Inr (T, [])"
| "de_list T (x # xs) =
     (case de_val T x of Inl e \<Rightarrow> Inl e
      | Inr (T1, jo) \<Rightarrow>
          (case de_list T1 xs of Inl e \<Rightarrow> Inl e
           | Inr (T2, js) \<Rightarrow> Inr (T2, (case jo of None \<Rightarrow> JNull | Some j \<Rightarrow> j) # js)))"
| "de_props T [] = Inr (T, [])"
| "de_props T ((k, v) # ps) =
     (case de_val T v of Inl e \<Rightarrow> Inl e
      | Inr (T1, jo) \<Rightarrow>
          (case de_props T1 ps of Inl e \<Rightarrow> Inl e
           | Inr (T2, js) \<Rightarrow> Inr (T2, (case jo of None \<Rightarrow> js | Some j \<Rightarrow> (k, j) # js))))"

text \<open>
  The reviver of \<^verbatim>\<open>deserializer\<close> (lines 158-216) on a value whose parts are revived
  already, for every kind but \<^verbatim>\<open>'_err'\<close>, which decodes the cause and is part of
  the recursion below.
\<close>

definition dec_reviver :: "env \<Rightarrow> registry \<Rightarrow> jsval list \<Rightarrow> jsval \<Rightarrow> error + jsval" where
  "dec_reviver en reg T v =
     (case v of
        VArr xs \<Rightarrow>
          if elem xs 0 = VStr ''_'' then
            if elem xs 1 = VStr ''_'' then
              (if 3 \<le> length xs then Inr (VArr (drop 2 xs)) else Inr VUndefined)
            else if elem xs 1 = VStr ''Map'' then map_ctor (elem xs 2)
            else if elem xs 1 = VStr ''Set'' then set_ctor (elem xs 2)
            else if elem xs 1 = VStr ''_custom'' then
              (case prop_key (elem xs 2) of Inl e \<Rightarrow> Inl e
               | Inr t \<Rightarrow>
                   (case reg t of
                      Some h \<Rightarrow> call_bound en h (elem xs 3)
                    | None \<Rightarrow> Inl (UnknownTag (elem xs 2))))
            else if elem xs 1 = VStr ''_ref'' then table_get T (elem xs 2)
            else if elem xs 1 = VStr ''_fn'' then Inr (VProxy (elem xs 2))
            else Inr v
          else Inr v
      | _ \<Rightarrow> Inr v)"

definition is_err_tagged :: "jsval list \<Rightarrow> bool" where
  "is_err_tagged xs = (elem xs 0 = VStr ''_'' \<and> elem xs 1 = VStr ''_err'')"

text \<open>
  \<open>dec_revive\<close> is \<^verbatim>\<open>JSON.parse(text, reviver)\<close>: the parts first, then the reviver on
  the whole.  A part revived to \<open>undefined\<close> is deleted.  In the \<^verbatim>\<open>'_err'\<close> case
  (lines 185-193) the name is assigned when it differs, so the object ends with the
  carried name; a name that is not a string, and an object that is not an Error, are
  outside the model; \<open>undefined\<close> and \<open>null\<close> have no \<^verbatim>\<open>name\<close> to read.
  The fuel bounds the depth of causes decoded inside causes: a reconstruct hook can
  return an Error whose cause holds a payload for the same hook.
\<close>

function dec_revive :: "nat \<Rightarrow> env \<Rightarrow> registry \<Rightarrow> jsval list \<Rightarrow> json \<Rightarrow> error + jsval"
  and dec_revive_list :: "nat \<Rightarrow> env \<Rightarrow> registry \<Rightarrow> jsval list \<Rightarrow> json list \<Rightarrow> error + jsval list"
  and dec_revive_props :: "nat \<Rightarrow> env \<Rightarrow> registry \<Rightarrow> jsval list \<Rightarrow> (string \<times> json) list \<Rightarrow> error + (string \<times> jsval) list"
  and deserializer :: "nat \<Rightarrow> env \<Rightarrow> registry \<Rightarrow> jsval \<Rightarrow> error + jsval"
where
  "dec_revive f en reg T JNull = Inr VNull"
| "dec_revive f en reg T (JBool b) = Inr (VBool b)"
| "dec_revive f en reg T (JNum r) = Inr (VNum (Finite r))"
| "dec_revive f en reg T (JStr s) = Inr (VStr s)"
| "dec_revive f en reg T (JObj ps) =
     (case dec_revive_props f en reg T ps of Inl e \<Rightarrow> Inl e | Inr qs \<Rightarrow> Inr (VObj qs))"
| "dec_revive f en reg T (JArr js) =
     (case dec_revive_list f en reg T js of Inl e \<Rightarrow> Inl e
      | Inr xs \<Rightarrow>
          if is_err_tagged xs then
            (case elem xs 2 of
               VErr i name cause \<Rightarrow>
                 (case elem xs 3 of
                    VStr carried \<Rightarrow>
                      if truthy cause then
                        (case f of
                           0 \<Rightarrow> Inl OutOfFuel
                         | Suc f' \<Rightarrow>
                             (case deserializer f' en reg cause of Inl e \<Rightarrow> Inl e
                              | Inr c \<Rightarrow> Inr (VErr i carried c)))
                      else Inr (VErr i carried cause)
                  | _ \<Rightarrow> Inl Unmodelled)
             | VUndefined \<Rightarrow> Inl TypeError
             | VNull \<Rightarrow> Inl TypeError
             | _ \<Rightarrow> Inl Unmodelled)
          else dec_reviver en reg T (VArr xs))"
| "dec_revive_list f en reg T [] = Inr []"
| "dec_revive_list f en reg T (j # js) =
     (case dec_revive f en reg T j of Inl e \<Rightarrow> Inl e
      | Inr x \<Rightarrow>
          (case dec_revive_list f en reg T js of Inl e \<Rightarrow> Inl e
           | Inr xs \<Rightarrow> Inr (to_slot x # xs)))"
| "dec_revive_props f en reg T [] = Inr []"
| "dec_revive_props f en reg T ((k, j) # ps) =
     (case dec_revive f en reg T j of Inl e \<Rightarrow> Inl e
      | Inr x \<Rightarrow>
          (case dec_revive_props f en reg T ps of Inl e \<Rightarrow> Inl e
           | Inr qs \<Rightarrow> Inr (if x = VUndefined then qs else (k, x) # qs)))"
  \<comment> \<open>lines 146-151; JSON.parse of the text \<open>undefined\<close> is a syntax error\<close>
| "deserializer f en reg d =
     (case de_val [] d of Inl e \<Rightarrow> Inl e
      | Inr (T, None) \<Rightarrow> Inl SyntaxError
      | Inr (T, Some j) \<Rightarrow> dec_revive f en reg T j)"
  by pat_completeness auto

termination
  apply (relation "inv_image (less_than <*lex*> less_than <*lex*> less_than)
    (\<lambda>x. case x of
       Inl (Inl (f, en, reg, T, j)) \<Rightarrow> (f, 0::nat, size j)
     | Inl (Inr (f, en, reg, T, js)) \<Rightarrow> (f, 0, size_list size js)
     | Inr (Inl (f, en, reg, T, ps)) \<Rightarrow> (f, 0, size_list (size_prod (\<lambda>_. 0) size) ps)
     | Inr (Inr (f, en, reg, d)) \<Rightarrow> (f, 1, 0))")
  apply (simp_all add: wf_lex_prod)
  done

section \<open>Concrete environments and helpers of the statements\<close>

text \<open>An environment without application classes, and the initial world.\<close>

definition env_none :: env where
  "env_none = \<lparr>sym_tag = (\<lambda>c. VUndefined), sym_serialize = (\<lambda>c. VUndefined),
     sym_deserialize = (\<lambda>c. VUndefined), call = (\<lambda>g this a. VUndefined)\<rparr>"

definition world0 :: world where
  "world0 = \<lparr>next_chan = 0, handlers = [], writes = []\<rparr>"

text \<open>
  The class \<^verbatim>\<open>X\<close> of the example at the end of \<^verbatim>\<open>index.ts\<close> (lines 230-244): the
  constructor is function 1 with tag \<^verbatim>\<open>'X'\<close>, its reconstruct hook is function 2
  (\<^verbatim>\<open>return new this()\<close>, an object with \<^verbatim>\<open>__x = '11'\<close>), its serialize hook is
  function 3 (\<^verbatim>\<open>return undefined\<close>).  Function 4 is a second constructor with the
  same tag and the reconstruct hook 5.
\<close>

definition env_X :: env where
  "env_X = \<lparr>
     sym_tag = (\<lambda>c. if c = 1 \<or> c = 4 then VStr ''X'' else VUndefined),
     sym_serialize = (\<lambda>c. if c = 1 then VFn 3 else VUndefined),
     sym_deserialize = (\<lambda>c. if c = 1 then VFn 2 else if c = 4 then VFn 5 else VUndefined),
     call = (\<lambda>g this a.
        if g = 2 then (case this of VFn c \<Rightarrow> VCustom c [(''__x'', VStr ''11'')] | _ \<Rightarrow> VUndefined)
        else VUndefined)\<rparr>"


text \<open>The cause of the Error object \<open>i\<close> after the assignments \<open>ws\<close>, when it was \<open>c\<close> before.\<close>

fun cause_after :: "(nat \<times> jsval) list \<Rightarrow> nat \<Rightarrow> jsval \<Rightarrow> jsval" where
  "cause_after [] i c = c"
| "cause_after ((j, v) # ws) i c = cause_after ws i (if j = i then v else c)"

text \<open>The tagged array \<^verbatim>\<open>['_', '_custom', tag, payload]\<close>.\<close>

definition custom_tagged :: "string \<Rightarrow> jsval \<Rightarrow> jsval" where
  "custom_tagged tag p = VArr [VStr ''_'', VStr ''_custom'', VStr tag, p]"

section \<open>The round trip: the data produced and the values covered\<close>

text \<open>The two sentinel values put before the encoded elements of an array that starts with
  the sentinel.\<close>

definition esc_vals :: "jsval list \<Rightarrow> jsval list" where
  "esc_vals xs = (if elem xs 0 = VStr ''_'' then [VStr ''_'', VStr ''_''] else [])"

text \<open>
  The data that \<^verbatim>\<open>serializer\<close> returns for a value without host objects and
  functions, written as a function of the value alone.  It is not part of the program:
  \<open>enc_correct\<close> below proves that the two passes of the encoder compute it.
\<close>

function enc :: "nat \<Rightarrow> env \<Rightarrow> jsval \<Rightarrow> jsval"
  and enc_list :: "nat \<Rightarrow> env \<Rightarrow> jsval list \<Rightarrow> jsval list"
  and enc_props :: "nat \<Rightarrow> env \<Rightarrow> (string \<times> jsval) list \<Rightarrow> (string \<times> jsval) list"
  and enc_entries :: "nat \<Rightarrow> env \<Rightarrow> (jsval \<times> jsval) list \<Rightarrow> jsval list"
where
  "enc f en VUndefined = VArr [VStr ''_'', VStr ''_'']"
| "enc f en VEmpty = VArr [VStr ''_'', VStr ''_'']"
| "enc f en VNull = VNull"
| "enc f en (VBool b) = VBool b"
| "enc f en (VNum n) = VNum n"
| "enc f en (VBigInt i) = VBigInt i"
| "enc f en (VStr s) = VStr s"
| "enc f en (VArr xs) = VArr (esc_vals xs @ enc_list f en xs)"
| "enc f en (VObj ps) = VObj (enc_props f en ps)"
| "enc f en (VMap es) = VArr [VStr ''_'', VStr ''Map'', VArr (enc_entries f en es)]"
| "enc f en (VSet xs) = VArr [VStr ''_'', VStr ''Set'', VArr (esc_vals xs @ enc_list f en xs)]"
| "enc f en (VErr i name cause) =
     VArr [VStr ''_'', VStr ''_err'',
           VErr i name (if truthy cause then enc f en cause else cause), VStr name]"
| "enc f en (VBlob b) = VBlob b"
| "enc f en (VPort c e) = VPort c e"
| "enc f en (VStream s) = VStream s"
| "enc f en (VBuffer b) = VBuffer b"
| "enc f en (VView v b) = VView v b"
| "enc f en (VFn g) = VFn g"
| "enc f en (VProxy p) = VProxy p"
| "enc f en (VCustom c ps) =
     (case f of
        0 \<Rightarrow> VCustom c ps
      | Suc f' \<Rightarrow>
          (case sym_serialize en c of
             VFn s \<Rightarrow> VArr [VStr ''_'', VStr ''_custom'', sym_tag en c,
                            enc f' en (call en s (VFn c) (VCustom c ps))]
           | _ \<Rightarrow> VCustom c ps))"
| "enc_list f en [] = []"
| "enc_list f en (x # xs) = enc f en x # enc_list f en xs"
| "enc_props f en [] = []"
| "enc_props f en ((k, v) # ps) = (k, enc f en v) # enc_props f en ps"
| "enc_entries f en [] = []"
| "enc_entries f en ((k, v) # es) =
     VArr (esc_vals [k, v] @ [enc f en k, enc f en v]) # enc_entries f en es"
  by pat_completeness auto

termination
  apply (relation "inv_image (less_than <*lex*> less_than)
    (\<lambda>x. case x of
       Inl (Inl (f, en, v)) \<Rightarrow> (f, size v)
     | Inl (Inr (f, en, xs)) \<Rightarrow> (f, size_list size xs)
     | Inr (Inl (f, en, ps)) \<Rightarrow> (f, size_list (size_prod (\<lambda>_. 0) size) ps)
     | Inr (Inr (f, en, es)) \<Rightarrow> (f, size_list (size_prod size size) es))")
  apply (simp_all add: wf_lex_prod)
  done

text \<open>Keys of a Map and members of a Set are pairwise different.\<close>

fun keys_distinct :: "jsval list \<Rightarrow> bool" where
  "keys_distinct [] = True"
| "keys_distinct (k # ks) = (\<not> list_ex (svz k) ks \<and> keys_distinct ks)"

text \<open>
  The identities of the Error objects that the encoder visits in a value, in the order
  of the visits.  In a tree they are pairwise different: no Error object is held twice.
\<close>

function err_ids :: "nat \<Rightarrow> env \<Rightarrow> jsval \<Rightarrow> nat list"
  and err_ids_list :: "nat \<Rightarrow> env \<Rightarrow> jsval list \<Rightarrow> nat list"
  and err_ids_props :: "nat \<Rightarrow> env \<Rightarrow> (string \<times> jsval) list \<Rightarrow> nat list"
  and err_ids_entries :: "nat \<Rightarrow> env \<Rightarrow> (jsval \<times> jsval) list \<Rightarrow> nat list"
where
  "err_ids f en VUndefined = []"
| "err_ids f en VEmpty = []"
| "err_ids f en VNull = []"
| "err_ids f en (VBool b) = []"
| "err_ids f en (VNum n) = []"
| "err_ids f en (VBigInt i) = []"
| "err_ids f en (VStr s) = []"
| "err_ids f en (VArr xs) = err_ids_list f en xs"
| "err_ids f en (VObj ps) = err_ids_props f en ps"
| "err_ids f en (VMap es) = err_ids_entries f en es"
| "err_ids f en (VSet xs) = err_ids_list f en xs"
| "err_ids f en (VErr i name cause) = i # (if truthy cause then err_ids f en cause else [])"
| "err_ids f en (VBlob b) = []"
| "err_ids f en (VPort c e) = []"
| "err_ids f en (VStream s) = []"
| "err_ids f en (VBuffer b) = []"
| "err_ids f en (VView v b) = []"
| "err_ids f en (VFn g) = []"
| "err_ids f en (VProxy p) = []"
| "err_ids f en (VCustom c ps) =
     (if truthy (sym_tag en c) \<and> truthy (sym_serialize en c) then
        (case sym_serialize en c of
           VFn s \<Rightarrow>
             (case f of
                0 \<Rightarrow> []
              | Suc f' \<Rightarrow>
                  err_ids f' en (sym_tag en c) @ err_ids f' en (call en s (VFn c) (VCustom c ps)))
         | _ \<Rightarrow> [])
      else err_ids_props f en ps)"
| "err_ids_list f en [] = []"
| "err_ids_list f en (x # xs) = err_ids f en x @ err_ids_list f en xs"
| "err_ids_props f en [] = []"
| "err_ids_props f en ((k, v) # ps) = err_ids f en v @ err_ids_props f en ps"
| "err_ids_entries f en [] = []"
| "err_ids_entries f en ((k, v) # es) = err_ids f en k @ err_ids f en v @ err_ids_entries f en es"
  by pat_completeness auto

termination
  apply (relation "inv_image (less_than <*lex*> less_than)
    (\<lambda>x. case x of
       Inl (Inl (f, en, v)) \<Rightarrow> (f, size v)
     | Inl (Inr (f, en, xs)) \<Rightarrow> (f, size_list size xs)
     | Inr (Inl (f, en, ps)) \<Rightarrow> (f, size_list (size_prod (\<lambda>_. 0) size) ps)
     | Inr (Inr (f, en, es)) \<Rightarrow> (f, size_list (size_prod size size) es))")
  apply (simp_all add: wf_lex_prod)
  done

text \<open>
  The values for which the round trip is proved.  \<open>undefined\<close> may stand at the top,
  as a key, value or member of a collection and as a payload, but not as an array
  element or a property value; an array may have holes; numbers are finite and not
  \<open>-0\<close>; the cause of an Error is empty or such a value; a custom object has a
  non-empty string tag, a serialize hook, and an entry in the registry whose hook
  returns the object for its payload, which is such a value again.  \<open>fe\<close> bounds the
  nesting of payloads and \<open>fd\<close> the nesting of causes.
\<close>

function rt_ok :: "nat \<Rightarrow> nat \<Rightarrow> env \<Rightarrow> registry \<Rightarrow> jsval \<Rightarrow> bool"
  and rt_ok_list :: "nat \<Rightarrow> nat \<Rightarrow> env \<Rightarrow> registry \<Rightarrow> jsval list \<Rightarrow> bool"
  and rt_ok_props :: "nat \<Rightarrow> nat \<Rightarrow> env \<Rightarrow> registry \<Rightarrow> (string \<times> jsval) list \<Rightarrow> bool"
  and rt_ok_entries :: "nat \<Rightarrow> nat \<Rightarrow> env \<Rightarrow> registry \<Rightarrow> (jsval \<times> jsval) list \<Rightarrow> bool"
  and rt_ok_members :: "nat \<Rightarrow> nat \<Rightarrow> env \<Rightarrow> registry \<Rightarrow> jsval list \<Rightarrow> bool"
where
  "rt_ok fe fd en reg VUndefined = True"
| "rt_ok fe fd en reg VEmpty = False"
| "rt_ok fe fd en reg VNull = True"
| "rt_ok fe fd en reg (VBool b) = True"
| "rt_ok fe fd en reg (VNum (Finite r)) = True"
| "rt_ok fe fd en reg (VNum NegZero) = False"
| "rt_ok fe fd en reg (VNum NaN) = False"
| "rt_ok fe fd en reg (VNum PosInf) = False"
| "rt_ok fe fd en reg (VNum NegInf) = False"
| "rt_ok fe fd en reg (VBigInt i) = False"
| "rt_ok fe fd en reg (VStr s) = True"
| "rt_ok fe fd en reg (VArr xs) = rt_ok_list fe fd en reg xs"
| "rt_ok fe fd en reg (VObj ps) = rt_ok_props fe fd en reg ps"
| "rt_ok fe fd en reg (VMap es) = (rt_ok_entries fe fd en reg es \<and> keys_distinct (map fst es))"
| "rt_ok fe fd en reg (VSet xs) = (rt_ok_members fe fd en reg xs \<and> keys_distinct xs)"
| "rt_ok fe fd en reg (VErr i name cause) =
     (if truthy cause then
        (case fd of 0 \<Rightarrow> False | Suc fd' \<Rightarrow> rt_ok fe fd' en reg cause)
      else True)"
| "rt_ok fe fd en reg (VBlob b) = False"
| "rt_ok fe fd en reg (VPort c e) = False"
| "rt_ok fe fd en reg (VStream s) = False"
| "rt_ok fe fd en reg (VBuffer b) = False"
| "rt_ok fe fd en reg (VView v b) = False"
| "rt_ok fe fd en reg (VFn g) = False"
| "rt_ok fe fd en reg (VProxy p) = False"
| "rt_ok fe fd en reg (VCustom c ps) =
     (case fe of
        0 \<Rightarrow> False
      | Suc fe' \<Rightarrow>
          (case sym_tag en c of
             VStr t \<Rightarrow>
               (case sym_serialize en c of
                  VFn s \<Rightarrow>
                    t \<noteq> [] \<and> rt_ok fe' fd en reg (call en s (VFn c) (VCustom c ps)) \<and>
                    (case reg t of
                       Some (VFn d, this) \<Rightarrow>
                         call en d this (call en s (VFn c) (VCustom c ps)) = VCustom c ps
                     | _ \<Rightarrow> False)
                | _ \<Rightarrow> False)
           | _ \<Rightarrow> False))"
| "rt_ok_list fe fd en reg [] = True"
| "rt_ok_list fe fd en reg (x # xs) =
     ((x = VEmpty \<or> x \<noteq> VUndefined \<and> rt_ok fe fd en reg x) \<and> rt_ok_list fe fd en reg xs)"
| "rt_ok_props fe fd en reg [] = True"
| "rt_ok_props fe fd en reg ((k, v) # ps) =
     (v \<noteq> VUndefined \<and> rt_ok fe fd en reg v \<and> rt_ok_props fe fd en reg ps)"
| "rt_ok_entries fe fd en reg [] = True"
| "rt_ok_entries fe fd en reg ((k, v) # es) =
     (rt_ok fe fd en reg k \<and> rt_ok fe fd en reg v \<and> rt_ok_entries fe fd en reg es)"
| "rt_ok_members fe fd en reg [] = True"
| "rt_ok_members fe fd en reg (x # xs) =
     (rt_ok fe fd en reg x \<and> rt_ok_members fe fd en reg xs)"
  by pat_completeness auto

termination
  apply (relation "inv_image (less_than <*lex*> less_than)
    (\<lambda>x. case x of
       Inl (Inl (fe, fd, en, reg, v)) \<Rightarrow> (fe, size v)
     | Inl (Inr (fe, fd, en, reg, xs)) \<Rightarrow> (fe, size_list size xs)
     | Inr (Inl (fe, fd, en, reg, ps)) \<Rightarrow> (fe, size_list (size_prod (\<lambda>_. 0) size) ps)
     | Inr (Inr (Inl (fe, fd, en, reg, es))) \<Rightarrow> (fe, size_list (size_prod size size) es)
     | Inr (Inr (Inr (fe, fd, en, reg, xs))) \<Rightarrow> (fe, size_list size xs))")
  apply (simp_all add: wf_lex_prod)
  done



text \<open>
  What the two passes of the encoder do to one value, whatever the table holds before
  and after: the first pass succeeds and only appends to the table, and the second pass
  turns the text written into \<open>d\<close>.
\<close>

definition ser_val_ok :: "nat \<Rightarrow> env \<Rightarrow> jsval \<Rightarrow> jsval \<Rightarrow> bool" where
  "ser_val_ok f en v d =
     (\<forall>st. \<exists>st' j N. ser_val f en st v = Inr (st', j) \<and> verbatim st' = verbatim st @ N \<and>
        (\<forall>rest. enc_revive (verbatim st @ N @ rest) j = Inr d))"

definition ser_list_ok :: "nat \<Rightarrow> env \<Rightarrow> jsval list \<Rightarrow> jsval list \<Rightarrow> bool" where
  "ser_list_ok f en xs ds =
     (\<forall>st. \<exists>st' js N. ser_list f en st xs = Inr (st', js) \<and> verbatim st' = verbatim st @ N \<and>
        (\<forall>rest. enc_revive_list (verbatim st @ N @ rest) js = Inr ds))"

definition ser_props_ok :: "nat \<Rightarrow> env \<Rightarrow> (string \<times> jsval) list \<Rightarrow> (string \<times> jsval) list \<Rightarrow> bool" where
  "ser_props_ok f en ps ds =
     (\<forall>st. \<exists>st' js N. ser_props f en st ps = Inr (st', js) \<and> verbatim st' = verbatim st @ N \<and>
        (\<forall>rest. enc_revive_props (verbatim st @ N @ rest) js = Inr ds))"

definition ser_entries_ok :: "nat \<Rightarrow> env \<Rightarrow> (jsval \<times> jsval) list \<Rightarrow> jsval list \<Rightarrow> bool" where
  "ser_entries_ok f en es ds =
     (\<forall>st. \<exists>st' js N. ser_entries f en st es = Inr (st', js) \<and> verbatim st' = verbatim st @ N \<and>
        (\<forall>rest. enc_revive_list (verbatim st @ N @ rest) js = Inr ds))"

text \<open>The same for the two passes of the decoder: the data \<open>d\<close> is decoded to \<open>v\<close>.\<close>

definition dec_ok :: "nat \<Rightarrow> env \<Rightarrow> registry \<Rightarrow> jsval \<Rightarrow> jsval \<Rightarrow> bool" where
  "dec_ok f en reg d v =
     (\<forall>T. \<exists>N j. de_val T d = Inr (T @ N, Some j) \<and>
        (\<forall>rest. dec_revive f en reg (T @ N @ rest) j = Inr v))"

definition dec_list_ok :: "nat \<Rightarrow> env \<Rightarrow> registry \<Rightarrow> jsval list \<Rightarrow> jsval list \<Rightarrow> bool" where
  "dec_list_ok f en reg ds vs =
     (\<forall>T. \<exists>N js. de_list T ds = Inr (T @ N, js) \<and>
        (\<forall>rest. dec_revive_list f en reg (T @ N @ rest) js = Inr vs))"

definition dec_props_ok :: "nat \<Rightarrow> env \<Rightarrow> registry \<Rightarrow> (string \<times> jsval) list \<Rightarrow> (string \<times> jsval) list \<Rightarrow> bool" where
  "dec_props_ok f en reg ds vs =
     (\<forall>T. \<exists>N js. de_props T ds = Inr (T @ N, js) \<and>
        (\<forall>rest. dec_revive_props f en reg (T @ N @ rest) js = Inr vs))"

section \<open>Plain data, positions and examples\<close>

text \<open>JSON-plain data: \<open>null\<close>, booleans, finite numbers other than \<open>-0\<close>, strings,
  arrays that do not start with the sentinel, and plain objects, of such data.\<close>

fun json_plain :: "jsval \<Rightarrow> bool"
  and json_plain_list :: "jsval list \<Rightarrow> bool"
  and json_plain_props :: "(string \<times> jsval) list \<Rightarrow> bool"
where
  "json_plain VNull = True"
| "json_plain (VBool b) = True"
| "json_plain (VNum (Finite r)) = True"
| "json_plain (VStr s) = True"
| "json_plain (VArr xs) = (elem xs 0 \<noteq> VStr ''_'' \<and> json_plain_list xs)"
| "json_plain (VObj ps) = json_plain_props ps"
| "json_plain _ = False"
| "json_plain_list [] = True"
| "json_plain_list (x # xs) = (json_plain x \<and> json_plain_list xs)"
| "json_plain_props [] = True"
| "json_plain_props ((k, v) # ps) = (json_plain v \<and> json_plain_props ps)"

text \<open>Positions in a value.\<close>

datatype step = Index nat | Key string | MapKey nat | MapValue nat | Member nat | Cause

fun at_path :: "jsval \<Rightarrow> step list \<Rightarrow> jsval option" where
  "at_path v [] = Some v"
| "at_path (VArr xs) (Index i # p) = (if i < length xs then at_path (xs ! i) p else None)"
| "at_path (VObj ps) (Key k # p) = (case map_of ps k of None \<Rightarrow> None | Some v \<Rightarrow> at_path v p)"
| "at_path (VMap es) (MapKey i # p) = (if i < length es then at_path (fst (es ! i)) p else None)"
| "at_path (VMap es) (MapValue i # p) = (if i < length es then at_path (snd (es ! i)) p else None)"
| "at_path (VSet xs) (Member i # p) = (if i < length xs then at_path (xs ! i) p else None)"
| "at_path (VErr i name cause) (Cause # p) = at_path cause p"
| "at_path _ _ = None"

definition test_source :: jsval where
  "test_source = VObj [(''foo'', VStr ''123''), (''bar'', VNum (Finite 123)), (''qux'', VNull),
     (''_'', VArr [VStr ''_'', VStr ''_'']),
     (''arr'', VArr [VSet [VStr ''123'', VObj []], VNum (Finite 1), VNull,
                    VMap [(VStr ''a'', VStr ''b'')]])]"

definition example_value :: jsval where
  "example_value = VArr [VStr ''_'', VStr ''_'',
     VArr [VStr ''_'', VStr ''_'', VStr ''_'',
       VMap [(VStr ''a'', VCustom 1 [(''__x'', VStr ''11'')]),
             (VStr ''b'', VErr 7 ''Error'' VUndefined)]]]"

section \<open>Tagged arrays inside a value, and positions through the round trip\<close>

text \<open>
  \<open>holds_tag tag v\<close>: the value is, or holds inside nested arrays and object properties,
  an array \<^verbatim>\<open>['_', '_custom', tag, ...]\<close> that carries the string \<open>tag\<close>.  These are the
  arrays that the reviver of the decoder meets at line 176.
\<close>

fun holds_tag :: "string \<Rightarrow> jsval \<Rightarrow> bool"
  and holds_tag_list :: "string \<Rightarrow> jsval list \<Rightarrow> bool"
  and holds_tag_props :: "string \<Rightarrow> (string \<times> jsval) list \<Rightarrow> bool"
where
  "holds_tag tag (VArr xs) =
     (elem xs 0 = VStr ''_'' \<and> elem xs 1 = VStr ''_custom'' \<and> elem xs 2 = VStr tag
      \<or> holds_tag_list tag xs)"
| "holds_tag tag (VObj ps) = holds_tag_props tag ps"
| "holds_tag tag v = False"
| "holds_tag_list tag [] = False"
| "holds_tag_list tag (x # xs) = (holds_tag tag x \<or> holds_tag_list tag xs)"
| "holds_tag_props tag [] = False"
| "holds_tag_props tag ((k, v) # ps) = (holds_tag tag v \<or> holds_tag_props tag ps)"

text \<open>
  \<open>trip en reg x y\<close>: the four passes take the part \<open>x\<close> of an input to the part \<open>y\<close> of
  the result.  The first pass of the encoder writes \<open>x\<close> in some state, its second pass
  revives what was written, with the final table or a longer one, to the part \<open>d\<close> of the
  data; the first pass of the decoder writes \<open>d\<close>, and its second pass revives that to
  \<open>y\<close>.  \<open>trip_list\<close> and \<open>trip_props\<close> are the same for the elements of an array and
  the properties of an object.  They are used to follow a position through the round
  trip of values that do not come back unchanged.
\<close>

definition trip :: "env \<Rightarrow> registry \<Rightarrow> jsval \<Rightarrow> jsval \<Rightarrow> bool" where
  "trip en reg x y =
     (\<exists>f g st st' j rest d T T' j' rest'.
        ser_val f en st x = Inr (st', j) \<and> enc_revive (verbatim st' @ rest) j = Inr d \<and>
        de_val T d = Inr (T', Some j') \<and> dec_revive g en reg (T' @ rest') j' = Inr y)"

definition trip_list :: "env \<Rightarrow> registry \<Rightarrow> jsval list \<Rightarrow> jsval list \<Rightarrow> bool" where
  "trip_list en reg xs ys =
     (\<exists>f g st st' js rest ds T T' js' rest'.
        ser_list f en st xs = Inr (st', js) \<and> enc_revive_list (verbatim st' @ rest) js = Inr ds \<and>
        de_list T ds = Inr (T', js') \<and> dec_revive_list g en reg (T' @ rest') js' = Inr ys)"

definition trip_props :: "env \<Rightarrow> registry \<Rightarrow> (string \<times> jsval) list \<Rightarrow> (string \<times> jsval) list \<Rightarrow> bool" where
  "trip_props en reg ps qs =
     (\<exists>f g st st' js rest ds T T' js' rest'.
        ser_props f en st ps = Inr (st', js) \<and> enc_revive_props (verbatim st' @ rest) js = Inr ds \<and>
        de_props T ds = Inr (T', js') \<and> dec_revive_props g en reg (T' @ rest') js' = Inr qs)"

text \<open>
  No registered reconstruct hook returns the sentinel string: an array whose first
  element is a custom object then does not start with the sentinel after decoding.
\<close>

definition hooks_plain :: "env \<Rightarrow> registry \<Rightarrow> bool" where
  "hooks_plain en reg = (\<forall>t h a. reg t = Some h \<longrightarrow> call_bound en h a \<noteq> Inr (VStr ''_''))"

text \<open>
  A key of a Map, or a member of a Set, that the round trip keeps apart from every other
  one: \<^verbatim>\<open>NaN\<close> and the infinities come back as \<^verbatim>\<open>null\<close> and \<^verbatim>\<open>-0\<close> as \<^verbatim>\<open>0\<close>, so
  two entries can fall together; a hole is no key; what a reconstruct hook returns for a
  custom object is not known.  \<open>keys_stable\<close>: the keys are pairwise different and each
  is kept apart.  \<open>key_img k y\<close> is what the round trip of such a key \<open>k\<close> gives: a new
  object, or a value with the identity of \<open>k\<close>.
\<close>

fun key_stable :: "jsval \<Rightarrow> bool" where
  "key_stable (VNum (Finite r)) = True"
| "key_stable (VNum n) = False"
| "key_stable VEmpty = False"
| "key_stable (VBigInt i) = False"
| "key_stable (VCustom c ps) = False"
| "key_stable v = True"

definition keys_stable :: "jsval list \<Rightarrow> bool" where
  "keys_stable ks = (keys_distinct ks \<and> list_all key_stable ks)"

definition key_img :: "jsval \<Rightarrow> jsval \<Rightarrow> bool" where
  "key_img k y = (y \<noteq> VEmpty \<and> key_norm y = y \<and>
     (is_fresh_obj y \<or> \<not> is_fresh_obj k \<and> ident y = ident k))"

text \<open>
  \<open>stable_path v p\<close>: the position \<open>p\<close> exists in \<open>v\<close>, and every Map and Set on the way
  has stable keys, so that the entries keep their places.
\<close>

fun stable_path :: "jsval \<Rightarrow> step list \<Rightarrow> bool" where
  "stable_path v [] = True"
| "stable_path (VArr xs) (Index i # p) = (i < length xs \<and> stable_path (xs ! i) p)"
| "stable_path (VObj ps) (Key k # p) =
     (case map_of ps k of None \<Rightarrow> False | Some v \<Rightarrow> stable_path v p)"
| "stable_path (VMap es) (MapKey i # p) =
     (i < length es \<and> keys_stable (map fst es) \<and> stable_path (fst (es ! i)) p)"
| "stable_path (VMap es) (MapValue i # p) =
     (i < length es \<and> keys_stable (map fst es) \<and> stable_path (snd (es ! i)) p)"
| "stable_path (VSet xs) (Member i # p) =
     (i < length xs \<and> keys_stable xs \<and> stable_path (xs ! i) p)"
| "stable_path (VErr i name cause) (Cause # p) = stable_path cause p"
| "stable_path _ _ = False"

text \<open>An object with an \<open>undefined\<close> property, and the sentinel pair inside a Map inside a
  Set.\<close>

definition pair_source :: jsval where
  "pair_source = VObj [(''a'', VUndefined),
     (''b'', VSet [VNull, VMap [(VStr ''k'', VArr [VStr ''_'', VStr ''_''])]])]"

section \<open>Properties\<close>

declare serializer.simps [simp del] deserializer.simps [simp del]

lemma cause_after_append: "cause_after (ws @ [(i, v)]) i c = v"
  by (induction ws arbitrary: c) auto

lemma rd_to_slot: "rd (to_slot x) = rd x"
  by (cases x) simp_all

lemma deserializer_SomeE:
  assumes "deserializer f en reg p = Inr p'"
  obtains T j where "de_val [] p = Inr (T, Some j)" and "dec_revive f en reg T j = Inr p'"
  using assms by (auto simp: deserializer.simps split: sum.splits option.splits)

subsection \<open>Falsy values\<close>

text \<open>
  C4.  \<^verbatim>\<open>null\<close>, \<^verbatim>\<open>false\<close>, \<^verbatim>\<open>0\<close> and the empty string are returned unchanged in
  the data field, with no transferable and no revokable.  The replacer returns every
  falsy value as it is (line 53), but the text written for it decides the data:
  \<^verbatim>\<open>-0\<close> comes back as \<^verbatim>\<open>0\<close>, \<^verbatim>\<open>NaN\<close> comes back as \<^verbatim>\<open>null\<close>, and for \<^verbatim>\<open>0n\<close>
  \<^verbatim>\<open>JSON.stringify\<close> throws a TypeError.
\<close>

theorem serializer_falsy:
  "serializer f en w VNull = Inr (\<lparr>data = VNull, res_transferables = [], res_revokables = []\<rparr>, w)
   \<and> serializer f en w (VBool False) = Inr (\<lparr>data = VBool False, res_transferables = [], res_revokables = []\<rparr>, w)
   \<and> serializer f en w (VNum (Finite 0)) = Inr (\<lparr>data = VNum (Finite 0), res_transferables = [], res_revokables = []\<rparr>, w)
   \<and> serializer f en w (VStr []) = Inr (\<lparr>data = VStr [], res_transferables = [], res_revokables = []\<rparr>, w)
   \<and> serializer f en w (VNum NegZero) = Inr (\<lparr>data = VNum (Finite 0), res_transferables = [], res_revokables = []\<rparr>, w)
   \<and> serializer f en w (VNum NaN) = Inr (\<lparr>data = VNull, res_transferables = [], res_revokables = []\<rparr>, w)
   \<and> serializer f en w (VBigInt 0) = Inl TypeError"
  by (simp add: serializer.simps)

theorem serializer_falsy_witness:
  "serializer 0 env_none world0 VNull = Inr (\<lparr>data = VNull, res_transferables = [], res_revokables = []\<rparr>, world0)
   \<and> serializer 0 env_none world0 (VNum NegZero) = Inr (\<lparr>data = VNum (Finite 0), res_transferables = [], res_revokables = []\<rparr>, world0)
   \<and> serializer 0 env_none world0 (VBigInt 0) = Inl TypeError"
  using serializer_falsy [of 0 env_none world0] by simp

subsection \<open>The registry\<close>

text \<open>
  C8.  For a constructor that is a function with a string tag and a function as
  reconstruct hook, \<^verbatim>\<open>register\<close> stores the hook bound to the constructor under the
  tag; registering a second constructor with the same tag afterwards replaces that
  entry, without an error.
\<close>

theorem register_valid:
  assumes "sym_tag en c = VStr tag" and "is_function (sym_deserialize en c)"
    and "sym_tag en c' = VStr tag" and "is_function (sym_deserialize en c')"
  shows "register en reg (VFn c) = Inr (reg(tag \<mapsto> (sym_deserialize en c, VFn c)))
    \<and> register en (reg(tag \<mapsto> (sym_deserialize en c, VFn c))) (VFn c')
           = Inr (reg(tag \<mapsto> (sym_deserialize en c', VFn c')))"
  using assms by (simp add: register_def)

theorem register_valid_witness:
  "register env_X Map.empty (VFn 1) = Inr [''X'' \<mapsto> (VFn 2, VFn 1)]
   \<and> register env_X [''X'' \<mapsto> (VFn 2, VFn 1)] (VFn 4) = Inr [''X'' \<mapsto> (VFn 5, VFn 4)]"
  using register_valid [of env_X 1 "''X''" 4 Map.empty] by (simp add: env_X_def)

text \<open>
  C9.  For an argument that is not a function, or a function whose tag is not a string
  or whose reconstruct hook is not a function, \<^verbatim>\<open>register\<close> returns normally and the
  registry is the one before the call.
\<close>

theorem register_invalid:
  assumes "\<not> is_function ctor
     \<or> (\<exists>c. ctor = VFn c \<and> (\<not> is_string (sym_tag en c) \<or> \<not> is_function (sym_deserialize en c)))
     \<or> (\<exists>p. ctor = VProxy p)"
  shows "register en reg ctor = Inr reg"
  using assms by (auto simp: register_def split: jsval.splits)

theorem register_invalid_witness:
  "register env_X Map.empty VUndefined = Inr Map.empty
   \<and> register env_X Map.empty (VFn 3) = Inr Map.empty
   \<and> register env_X Map.empty (VObj [(''tag'', VStr ''X'')]) = Inr Map.empty"
  using register_invalid [of VUndefined env_X Map.empty] register_invalid [of "VFn 3" env_X Map.empty]
    register_invalid [of "VObj [(''tag'', VStr ''X'')]" env_X Map.empty]
  by (simp add: env_X_def)

subsection \<open>Errors\<close>

lemma serializer_err_eq:
  "serializer f en w (VErr i name cause) =
     (if truthy cause then
        (case serializer f en w cause of Inl e \<Rightarrow> Inl e
         | Inr (r, w') \<Rightarrow>
             Inr (\<lparr>data = VArr [VStr ''_'', VStr ''_err'', VErr i name (data r), VStr name],
                   res_transferables = [], res_revokables = []\<rparr>,
                  w'\<lparr>writes := writes w' @ [(i, data r)]\<rparr>))
      else Inr (\<lparr>data = VArr [VStr ''_'', VStr ''_err'', VErr i name cause, VStr name],
                 res_transferables = [], res_revokables = []\<rparr>, w))"
  by (simp add: serializer.simps [of f en w "VErr i name cause"] push_def ref_json_def
      enc_reviver_def elem_def is_index_def Let_def split: sum.splits prod.splits)

lemma deserializer_err_eq:
  "deserializer g en reg (VArr [VStr ''_'', VStr ''_err'', VErr i other cause', VStr name]) =
     (if truthy cause' then
        (case g of 0 \<Rightarrow> Inl OutOfFuel
         | Suc g' \<Rightarrow>
            (case deserializer g' en reg cause' of Inl e \<Rightarrow> Inl e | Inr c \<Rightarrow> Inr (VErr i name c)))
      else Inr (VErr i name cause'))"
  by (simp add: deserializer.simps [of g en reg "VArr [VStr ''_'', VStr ''_err'', VErr i other cause', VStr name]"]
      ref_json_def dec_reviver_def is_err_tagged_def elem_def is_index_def
      split: sum.splits nat.splits)

text \<open>
  C7.  Encoding an Error carries its name next to the object, and decoding
  \<^verbatim>\<open>['_', '_err', e, name]\<close> returns the object \<open>e\<close> with the carried name, whatever
  name \<open>e\<close> has on arrival; when the cause of \<open>e\<close> is not empty it is decoded first,
  by a recursive call, and the decoded cause is the cause of the object returned.
  So whenever encoding an Error and decoding the data both return, the result is that
  Error object with its name.
\<close>

theorem error_name_and_cause:
  "serializer f en w (VErr i name cause) =
     (if truthy cause then
        (case serializer f en w cause of Inl e \<Rightarrow> Inl e
         | Inr (r, w') \<Rightarrow>
             Inr (\<lparr>data = VArr [VStr ''_'', VStr ''_err'', VErr i name (data r), VStr name],
                   res_transferables = [], res_revokables = []\<rparr>,
                  w'\<lparr>writes := writes w' @ [(i, data r)]\<rparr>))
      else Inr (\<lparr>data = VArr [VStr ''_'', VStr ''_err'', VErr i name cause, VStr name],
                 res_transferables = [], res_revokables = []\<rparr>, w))
   \<and> deserializer g en reg (VArr [VStr ''_'', VStr ''_err'', VErr i other cause', VStr name]) =
     (if truthy cause' then
        (case g of 0 \<Rightarrow> Inl OutOfFuel
         | Suc g' \<Rightarrow>
            (case deserializer g' en reg cause' of Inl e \<Rightarrow> Inl e | Inr c \<Rightarrow> Inr (VErr i name c)))
      else Inr (VErr i name cause'))
   \<and> (\<forall>r w' v'. serializer f en w (VErr i name cause) = Inr (r, w')
          \<and> deserializer g en reg (data r) = Inr v' \<longrightarrow> (\<exists>c. v' = VErr i name c))"
proof (intro conjI allI impI)
  fix r w' v'
  assume a: "serializer f en w (VErr i name cause) = Inr (r, w') \<and> deserializer g en reg (data r) = Inr v'"
  then obtain c1 where d: "data r = VArr [VStr ''_'', VStr ''_err'', VErr i name c1, VStr name]"
    by (auto simp: serializer_err_eq split: if_splits sum.splits)
  from a show "\<exists>c. v' = VErr i name c"
    unfolding d deserializer_err_eq
    by (auto split: if_splits nat.splits sum.splits)
qed (rule serializer_err_eq deserializer_err_eq)+

theorem error_name_and_cause_witness:
  "serializer 1 env_none world0 (VErr 1 ''TypeError'' (VStr ''why'')) =
     Inr (\<lparr>data = VArr [VStr ''_'', VStr ''_err'', VErr 1 ''TypeError'' (VStr ''why''), VStr ''TypeError''],
           res_transferables = [], res_revokables = []\<rparr>,
          world0\<lparr>writes := [(1, VStr ''why'')]\<rparr>)
   \<and> deserializer 1 env_none Map.empty
        (VArr [VStr ''_'', VStr ''_err'', VErr 1 ''Error'' (VStr ''why''), VStr ''TypeError''])
      = Inr (VErr 1 ''TypeError'' (VStr ''why''))"
  using error_name_and_cause [of 1 env_none world0 1 "''TypeError''" "VStr ''why''" 1 Map.empty "''Error''" "VStr ''why''"]
  by (simp add: world0_def serializer.simps deserializer.simps)

text \<open>
  C3 (amended).  When an Error with a non-empty cause is encoded, the cause of that
  very object is assigned the encoded cause, \<^verbatim>\<open>serializer(cause).data\<close>: after the
  call the input Error holds the encoded cause, and it is this object that stands in
  the data.
\<close>

theorem error_cause_overwritten:
  assumes "truthy cause" and "serializer f en w cause = Inr (r, w')"
  shows "\<exists>r' w''. serializer f en w (VErr i name cause) = Inr (r', w'')
     \<and> cause_after (writes w'') i cause = data r
     \<and> data r' = VArr [VStr ''_'', VStr ''_err'', VErr i name (data r), VStr name]"
  using assms
  by (simp add: serializer.simps [of f en w "VErr i name cause"] push_def ref_json_def
      enc_reviver_def elem_def is_index_def Let_def cause_after_append)

theorem error_cause_overwritten_witness:
  "\<exists>r' w''. serializer 0 env_none world0 (VErr 1 ''Error'' (VMap [])) = Inr (r', w'')
     \<and> cause_after (writes w'') 1 (VMap []) = VArr [VStr ''_'', VStr ''Map'', VArr []]"
proof -
  have s: "serializer 0 env_none world0 (VMap []) =
      Inr (\<lparr>data = VArr [VStr ''_'', VStr ''Map'', VArr []], res_transferables = [], res_revokables = []\<rparr>, world0)"
    by (simp add: serializer.simps enc_reviver_def elem_def)
  from error_cause_overwritten [OF _ s, of 1 "''Error''"] show ?thesis by auto
qed

text \<open>C3 as stated fails: after encoding an Error whose cause is an empty Map, the
  cause of the input Error is the tagged array, not the Map.\<close>

theorem error_cause_unchanged_counterexample:
  "truthy (VMap []) \<and> (\<exists>r w. serializer 0 env_none world0 (VErr 1 ''Error'' (VMap [])) = Inr (r, w)
     \<and> cause_after (writes w) 1 (VMap []) \<noteq> VMap [])"
  by (simp add: serializer.simps push_def ref_json_def enc_reviver_def elem_def is_index_def
      Let_def world0_def)

subsection \<open>The two passes, step by step\<close>

lemma enc_not_undefined [simp]: "enc f en v \<noteq> VUndefined"
  by (cases v; cases f) (auto split: jsval.splits)

lemma enc_not_empty [simp]: "enc f en v \<noteq> VEmpty"
  by (cases v; cases f) (auto split: jsval.splits)

lemma enc_is_str [simp]: "(enc f en v = VStr s) = (v = VStr s)"
  by (cases v; cases f) (auto split: jsval.splits)

lemma truthy_enc: "truthy v \<Longrightarrow> truthy (enc f en v)"
  by (cases v; cases f) (auto split: jsval.splits)

lemma to_slot_id [simp]: "v \<noteq> VUndefined \<Longrightarrow> to_slot v = v"
  by (cases v) simp_all

lemma elem_Nil [simp]: "elem [] i = VUndefined"
  by (simp add: elem_def)

lemma elem_Cons_0 [simp]: "elem (x # xs) 0 = rd x"
  by (simp add: elem_def)

lemma elem_Cons_Suc [simp]: "elem (x # xs) (Suc i) = elem xs i"
  by (simp add: elem_def)

lemma elem_Cons_num [simp]:
  "elem (x # xs) 1 = elem xs 0" "elem (x # xs) 2 = elem xs 1" "elem (x # xs) 3 = elem xs 2"
  by (simp_all add: elem_def)

lemma ser_list_ok_Nil: "ser_list_ok f en [] []"
  by (simp add: ser_list_ok_def)

lemma ser_list_ok_Cons:
  assumes x: "ser_val_ok f en x d" and d: "d \<noteq> VUndefined" and xs: "ser_list_ok f en xs ds"
  shows "ser_list_ok f en (x # xs) (d # ds)"
  unfolding ser_list_ok_def
proof
  fix st
  from x obtain st1 j N1 where 1: "ser_val f en st x = Inr (st1, j)"
    and v1: "verbatim st1 = verbatim st @ N1"
    and r1: "\<And>rest. enc_revive (verbatim st @ N1 @ rest) j = Inr d"
    unfolding ser_val_ok_def by blast
  from xs obtain st2 js N2 where 2: "ser_list f en st1 xs = Inr (st2, js)"
    and v2: "verbatim st2 = verbatim st1 @ N2"
    and r2: "\<And>rest. enc_revive_list (verbatim st1 @ N2 @ rest) js = Inr ds"
    unfolding ser_list_ok_def by blast
  have "ser_list f en st (x # xs) = Inr (st2, j # js)"
    by (simp add: 1 2)
  moreover have "verbatim st2 = verbatim st @ (N1 @ N2)"
    by (simp add: v1 v2)
  moreover have "enc_revive_list (verbatim st @ (N1 @ N2) @ rest) (j # js) = Inr (d # ds)" for rest
    using r1 [of "N2 @ rest"] r2 [of rest] d by (simp add: v1)
  ultimately show "\<exists>st' js N. ser_list f en st (x # xs) = Inr (st', js) \<and>
      verbatim st' = verbatim st @ N \<and>
      (\<forall>rest. enc_revive_list (verbatim st @ N @ rest) js = Inr (d # ds))"
    by blast
qed


lemma ser_props_ok_Nil: "ser_props_ok f en [] []"
  by (simp add: ser_props_ok_def)

lemma ser_props_ok_Cons:
  assumes x: "ser_val_ok f en x d" and d: "d \<noteq> VUndefined" and xs: "ser_props_ok f en ps ds"
  shows "ser_props_ok f en ((k, x) # ps) ((k, d) # ds)"
  unfolding ser_props_ok_def
proof
  fix st
  from x obtain st1 j N1 where 1: "ser_val f en st x = Inr (st1, j)"
    and v1: "verbatim st1 = verbatim st @ N1"
    and r1: "\<And>rest. enc_revive (verbatim st @ N1 @ rest) j = Inr d"
    unfolding ser_val_ok_def by blast
  from xs obtain st2 js N2 where 2: "ser_props f en st1 ps = Inr (st2, js)"
    and v2: "verbatim st2 = verbatim st1 @ N2"
    and r2: "\<And>rest. enc_revive_props (verbatim st1 @ N2 @ rest) js = Inr ds"
    unfolding ser_props_ok_def by blast
  have "ser_props f en st ((k, x) # ps) = Inr (st2, (k, j) # js)"
    by (simp add: 1 2)
  moreover have "verbatim st2 = verbatim st @ (N1 @ N2)"
    by (simp add: v1 v2)
  moreover have "enc_revive_props (verbatim st @ (N1 @ N2) @ rest) ((k, j) # js) = Inr ((k, d) # ds)" for rest
    using r1 [of "N2 @ rest"] r2 [of rest] d by (simp add: v1)
  ultimately show "\<exists>st' js N. ser_props f en st ((k, x) # ps) = Inr (st', js) \<and>
      verbatim st' = verbatim st @ N \<and>
      (\<forall>rest. enc_revive_props (verbatim st @ N @ rest) js = Inr ((k, d) # ds))"
    by blast
qed

lemma ser_entries_ok_Nil: "ser_entries_ok f en [] []"
  by (simp add: ser_entries_ok_def)

lemma ser_entries_ok_Cons:
  assumes k: "ser_val_ok f en k dk" and v: "ser_val_ok f en v dv"
    and dk: "dk \<noteq> VUndefined" "dk \<noteq> VEmpty" "dk = VStr ''_'' \<longrightarrow> k = VStr ''_''"
    and dv: "dv \<noteq> VUndefined"
    and es: "ser_entries_ok f en es ds"
  shows "ser_entries_ok f en ((k, v) # es) (VArr (esc_vals [k, v] @ [dk, dv]) # ds)"
  unfolding ser_entries_ok_def
proof
  fix st
  from k obtain st1 jk N1 where 1: "ser_val f en st k = Inr (st1, jk)"
    and v1: "verbatim st1 = verbatim st @ N1"
    and r1: "\<And>rest. enc_revive (verbatim st @ N1 @ rest) jk = Inr dk"
    unfolding ser_val_ok_def by blast
  from v obtain st2 jv N2 where 2: "ser_val f en st1 v = Inr (st2, jv)"
    and v2: "verbatim st2 = verbatim st1 @ N2"
    and r2: "\<And>rest. enc_revive (verbatim st1 @ N2 @ rest) jv = Inr dv"
    unfolding ser_val_ok_def by blast
  from es obtain st3 js N3 where 3: "ser_entries f en st2 es = Inr (st3, js)"
    and v3: "verbatim st3 = verbatim st2 @ N3"
    and r3: "\<And>rest. enc_revive_list (verbatim st2 @ N3 @ rest) js = Inr ds"
    unfolding ser_entries_ok_def by blast
  let ?j = "JArr (escape_prefix [k, v] @ [jk, jv])"
  have "ser_entries f en st ((k, v) # es) = Inr (st3, ?j # js)"
    by (simp add: 1 2 3)
  moreover have "verbatim st3 = verbatim st @ (N1 @ N2 @ N3)"
    by (simp add: v1 v2 v3)
  moreover have "enc_revive_list (verbatim st @ (N1 @ N2 @ N3) @ rest) (?j # js)
      = Inr (VArr (esc_vals [k, v] @ [dk, dv]) # ds)" for rest
    using r1 [of "N2 @ N3 @ rest"] r2 [of "N3 @ rest"] r3 [of rest] dk dv
    by (cases dk) (auto simp: v1 v2 escape_prefix_def esc_vals_def enc_reviver_def elem_def)
  ultimately show "\<exists>st' js N. ser_entries f en st ((k, v) # es) = Inr (st', js) \<and>
      verbatim st' = verbatim st @ N \<and>
      (\<forall>rest. enc_revive_list (verbatim st @ N @ rest) js
         = Inr (VArr (esc_vals [k, v] @ [dk, dv]) # ds))"
    by blast
qed

lemma ser_val_ok_leaf:
  "ser_val_ok f en VUndefined (VArr [VStr ''_'', VStr ''_''])"
  "ser_val_ok f en VEmpty (VArr [VStr ''_'', VStr ''_''])"
  "ser_val_ok f en VNull VNull"
  "ser_val_ok f en (VBool b) (VBool b)"
  "ser_val_ok f en (VNum (Finite r)) (VNum (Finite r))"
  "ser_val_ok f en (VStr s) (VStr s)"
  by (simp_all add: ser_val_ok_def enc_reviver_def elem_def)

lemma enc_reviver_plain:
  assumes "elem ds 0 = VStr ''_'' \<longrightarrow> elem xs 0 = VStr ''_''"
  shows "enc_reviver T (VArr (esc_vals xs @ ds)) = Inr (VArr (esc_vals xs @ ds))"
proof (cases "elem xs 0 = VStr ''_''")
  case True
  then show ?thesis by (simp add: enc_reviver_def esc_vals_def)
next
  case False
  with assms have "elem ds 0 \<noteq> VStr ''_''" by blast
  with False show ?thesis by (simp add: enc_reviver_def esc_vals_def)
qed

lemma enc_reviver_tagged:
  "k \<noteq> ''_ref'' \<Longrightarrow>
   enc_reviver T (VArr (VStr ''_'' # VStr k # xs)) = Inr (VArr (VStr ''_'' # VStr k # xs))"
  by (simp add: enc_reviver_def)

lemma enc_revive_list_prefix:
  "enc_revive_list T (escape_prefix xs @ js) =
     (case enc_revive_list T js of Inl e \<Rightarrow> Inl e | Inr ds \<Rightarrow> Inr (esc_vals xs @ ds))"
  by (auto simp: escape_prefix_def esc_vals_def split: sum.splits)

lemma ser_val_ok_arr:
  assumes xs: "ser_list_ok f en xs ds" and h: "elem ds 0 = VStr ''_'' \<longrightarrow> elem xs 0 = VStr ''_''"
  shows "ser_val_ok f en (VArr xs) (VArr (esc_vals xs @ ds))"
  unfolding ser_val_ok_def
proof
  fix st
  from xs obtain st1 js N1 where 1: "ser_list f en st xs = Inr (st1, js)"
    and v1: "verbatim st1 = verbatim st @ N1"
    and r1: "\<And>rest. enc_revive_list (verbatim st @ N1 @ rest) js = Inr ds"
    unfolding ser_list_ok_def by blast
  have "ser_val f en st (VArr xs) = Inr (st1, JArr (escape_prefix xs @ js))"
    by (simp add: 1)
  moreover have "enc_revive (verbatim st @ N1 @ rest) (JArr (escape_prefix xs @ js))
      = Inr (VArr (esc_vals xs @ ds))" for rest
    by (simp add: enc_revive_list_prefix r1 enc_reviver_plain [OF h])
  ultimately show "\<exists>st' j N. ser_val f en st (VArr xs) = Inr (st', j) \<and>
      verbatim st' = verbatim st @ N \<and>
      (\<forall>rest. enc_revive (verbatim st @ N @ rest) j = Inr (VArr (esc_vals xs @ ds)))"
    using v1 by blast
qed

lemma ser_val_ok_set:
  assumes xs: "ser_list_ok f en xs ds" and h: "elem ds 0 = VStr ''_'' \<longrightarrow> elem xs 0 = VStr ''_''"
  shows "ser_val_ok f en (VSet xs) (VArr [VStr ''_'', VStr ''Set'', VArr (esc_vals xs @ ds)])"
  unfolding ser_val_ok_def
proof
  fix st
  from xs obtain st1 js N1 where 1: "ser_list f en st xs = Inr (st1, js)"
    and v1: "verbatim st1 = verbatim st @ N1"
    and r1: "\<And>rest. enc_revive_list (verbatim st @ N1 @ rest) js = Inr ds"
    unfolding ser_list_ok_def by blast
  let ?j = "JArr [JStr ''_'', JStr ''Set'', JArr (escape_prefix xs @ js)]"
  have "ser_val f en st (VSet xs) = Inr (st1, ?j)"
    by (simp add: 1)
  moreover have "enc_revive (verbatim st @ N1 @ rest) ?j
      = Inr (VArr [VStr ''_'', VStr ''Set'', VArr (esc_vals xs @ ds)])" for rest
    by (simp add: enc_revive_list_prefix r1 enc_reviver_plain [OF h] enc_reviver_tagged)
  ultimately show "\<exists>st' j N. ser_val f en st (VSet xs) = Inr (st', j) \<and>
      verbatim st' = verbatim st @ N \<and>
      (\<forall>rest. enc_revive (verbatim st @ N @ rest) j
         = Inr (VArr [VStr ''_'', VStr ''Set'', VArr (esc_vals xs @ ds)]))"
    using v1 by blast
qed

lemma ser_val_ok_map:
  assumes es: "ser_entries_ok f en es ds" and h: "elem ds 0 \<noteq> VStr ''_''"
  shows "ser_val_ok f en (VMap es) (VArr [VStr ''_'', VStr ''Map'', VArr ds])"
  unfolding ser_val_ok_def
proof
  fix st
  from es obtain st1 js N1 where 1: "ser_entries f en st es = Inr (st1, js)"
    and v1: "verbatim st1 = verbatim st @ N1"
    and r1: "\<And>rest. enc_revive_list (verbatim st @ N1 @ rest) js = Inr ds"
    unfolding ser_entries_ok_def by blast
  let ?j = "JArr [JStr ''_'', JStr ''Map'', JArr js]"
  have "ser_val f en st (VMap es) = Inr (st1, ?j)"
    by (simp add: 1)
  moreover have "enc_revive (verbatim st @ N1 @ rest) ?j
      = Inr (VArr [VStr ''_'', VStr ''Map'', VArr ds])" for rest
    using h by (simp add: r1 enc_reviver_def enc_reviver_tagged)
  ultimately show "\<exists>st' j N. ser_val f en st (VMap es) = Inr (st', j) \<and>
      verbatim st' = verbatim st @ N \<and>
      (\<forall>rest. enc_revive (verbatim st @ N @ rest) j
         = Inr (VArr [VStr ''_'', VStr ''Map'', VArr ds]))"
    using v1 by blast
qed

lemma ser_val_ok_obj:
  assumes ps: "ser_props_ok f en ps ds"
  shows "ser_val_ok f en (VObj ps) (VObj ds)"
  unfolding ser_val_ok_def
proof
  fix st
  from ps obtain st1 js N1 where 1: "ser_props f en st ps = Inr (st1, js)"
    and v1: "verbatim st1 = verbatim st @ N1"
    and r1: "\<And>rest. enc_revive_props (verbatim st @ N1 @ rest) js = Inr ds"
    unfolding ser_props_ok_def by blast
  have "ser_val f en st (VObj ps) = Inr (st1, JObj js)"
    by (simp add: 1)
  moreover have "enc_revive (verbatim st @ N1 @ rest) (JObj js) = Inr (VObj ds)" for rest
    by (simp add: r1)
  ultimately show "\<exists>st' j N. ser_val f en st (VObj ps) = Inr (st', j) \<and>
      verbatim st' = verbatim st @ N \<and>
      (\<forall>rest. enc_revive (verbatim st @ N @ rest) j = Inr (VObj ds))"
    using v1 by blast
qed

lemma table_get_last:
  "table_get (T @ v # rest) (VNum (Finite (of_nat (length T)))) = Inr v"
  by (simp add: is_index_def)

lemma enc_revive_ref:
  "enc_revive (T @ v # rest) (ref_json (length T)) = Inr v"
  by (simp add: ref_json_def enc_reviver_def table_get_last del: table_get.simps)

lemma ser_val_ok_err_plain:
  assumes "\<not> truthy c"
  shows "ser_val_ok f en (VErr i name c) (VArr [VStr ''_'', VStr ''_err'', VErr i name c, VStr name])"
  unfolding ser_val_ok_def
proof
  fix st :: sst
  let ?j = "JArr [JStr ''_'', JStr ''_err'', ref_json (length (verbatim st)), JStr name]"
  have "ser_val f en st (VErr i name c) = Inr (push st (VErr i name c), ?j)"
    using assms by (simp add: Let_def)
  moreover have "verbatim (push st (VErr i name c)) = verbatim st @ [VErr i name c]"
    by (simp add: push_def)
  moreover have "enc_revive (verbatim st @ [VErr i name c] @ rest) ?j
      = Inr (VArr [VStr ''_'', VStr ''_err'', VErr i name c, VStr name])" for rest
    by (simp add: enc_revive_ref enc_reviver_tagged)
  ultimately show "\<exists>st' j N. ser_val f en st (VErr i name c) = Inr (st', j) \<and>
      verbatim st' = verbatim st @ N \<and>
      (\<forall>rest. enc_revive (verbatim st @ N @ rest) j
         = Inr (VArr [VStr ''_'', VStr ''_err'', VErr i name c, VStr name]))"
    by blast
qed

lemma serializer_of_ok:
  assumes "ser_val_ok f en v d"
  shows "\<exists>r w'. serializer f en w v = Inr (r, w') \<and> data r = d"
proof -
  let ?st = "\<lparr>verbatim = [], transferables = [], revokables = [], wld = w\<rparr>"
  from assms obtain st' j N where 1: "ser_val f en ?st v = Inr (st', j)"
    and v: "verbatim st' = verbatim ?st @ N"
    and r: "\<And>rest. enc_revive (verbatim ?st @ N @ rest) j = Inr d"
    unfolding ser_val_ok_def by blast
  from r [of "[]"] v have "enc_revive (verbatim st') j = Inr d" by simp
  with 1 show ?thesis by (simp add: serializer.simps)
qed

lemma ser_val_ok_err_cause:
  assumes t: "truthy c" and c: "ser_val_ok f en c d"
  shows "ser_val_ok f en (VErr i name c) (VArr [VStr ''_'', VStr ''_err'', VErr i name d, VStr name])"
  unfolding ser_val_ok_def
proof
  fix st :: sst
  let ?j = "JArr [JStr ''_'', JStr ''_err'', ref_json (length (verbatim st)), JStr name]"
  from serializer_of_ok [OF c] obtain r w' where
    s: "serializer f en (wld (push st (VErr i name c))) c = Inr (r, w')" and d: "data r = d"
    by blast
  let ?st' = "(push st (VErr i name c))\<lparr>
      verbatim := (verbatim (push st (VErr i name c)))[length (verbatim st) := VErr i name d],
      wld := w'\<lparr>writes := writes w' @ [(i, d)]\<rparr>\<rparr>"
  have "ser_val f en st (VErr i name c) = Inr (?st', ?j)"
    using t by (simp add: Let_def s d)
  moreover have "verbatim ?st' = verbatim st @ [VErr i name d]"
    by (simp add: push_def)
  moreover have "enc_revive (verbatim st @ [VErr i name d] @ rest) ?j
      = Inr (VArr [VStr ''_'', VStr ''_err'', VErr i name d, VStr name])" for rest
    by (simp add: enc_revive_ref enc_reviver_tagged)
  ultimately show "\<exists>st' j N. ser_val f en st (VErr i name c) = Inr (st', j) \<and>
      verbatim st' = verbatim st @ N \<and>
      (\<forall>rest. enc_revive (verbatim st @ N @ rest) j
         = Inr (VArr [VStr ''_'', VStr ''_err'', VErr i name d, VStr name]))"
    by blast
qed

lemma ser_val_ok_custom:
  assumes tag: "sym_tag en c = VStr t" "t \<noteq> []" and hook: "sym_serialize en c = VFn s"
    and p: "ser_val_ok f en (call en s (VFn c) (VCustom c ps)) d" and d: "d \<noteq> VUndefined"
  shows "ser_val_ok (Suc f) en (VCustom c ps) (VArr [VStr ''_'', VStr ''_custom'', VStr t, d])"
  unfolding ser_val_ok_def
proof
  fix st :: sst
  from p obtain st1 j N1 where 1: "ser_val f en st (call en s (VFn c) (VCustom c ps)) = Inr (st1, j)"
    and v1: "verbatim st1 = verbatim st @ N1"
    and r1: "\<And>rest. enc_revive (verbatim st @ N1 @ rest) j = Inr d"
    unfolding ser_val_ok_def by blast
  let ?j = "JArr [JStr ''_'', JStr ''_custom'', JStr t, j]"
  have "ser_val (Suc f) en st (VCustom c ps) = Inr (st1, ?j)"
    by (simp add: tag hook 1)
  moreover have "enc_revive (verbatim st @ N1 @ rest) ?j
      = Inr (VArr [VStr ''_'', VStr ''_custom'', VStr t, d])" for rest
    using d by (simp add: r1 enc_reviver_tagged)
  ultimately show "\<exists>st' j N. ser_val (Suc f) en st (VCustom c ps) = Inr (st', j) \<and>
      verbatim st' = verbatim st @ N \<and>
      (\<forall>rest. enc_revive (verbatim st @ N @ rest) j
         = Inr (VArr [VStr ''_'', VStr ''_custom'', VStr t, d]))"
    using v1 by blast
qed

lemma rd_is_str [simp]: "(rd x = VStr s) = (x = VStr s)"
  by (cases x) simp_all

lemma rd_enc [simp]: "rd (enc f en v) = enc f en v"
  by (cases "enc f en v") simp_all

lemma elem_enc_list_0: "(elem (enc_list f en xs) 0 = VStr s) = (elem xs 0 = VStr s)"
  by (cases xs) simp_all

lemma elem_enc_entries_0: "elem (enc_entries f en es) 0 \<noteq> VStr s"
  by (cases es) auto

lemma enc_correct:
  "rt_ok fe fd en reg v \<Longrightarrow> ser_val_ok fe en v (enc fe en v)"
  "rt_ok_list fe fd en reg xs \<Longrightarrow> ser_list_ok fe en xs (enc_list fe en xs)"
  "rt_ok_props fe fd en reg ps \<Longrightarrow> ser_props_ok fe en ps (enc_props fe en ps)"
  "rt_ok_entries fe fd en reg es \<Longrightarrow> ser_entries_ok fe en es (enc_entries fe en es)"
  "rt_ok_members fe fd en reg ys \<Longrightarrow> ser_list_ok fe en ys (enc_list fe en ys)"
proof (induction fe fd en reg v and fe fd en reg xs and fe fd en reg ps
    and fe fd en reg es and fe fd en reg ys
    rule: rt_ok_rt_ok_list_rt_ok_props_rt_ok_entries_rt_ok_members.induct)
  case (12 fe fd en reg xs)
  then show ?case
    by (simp add: ser_val_ok_arr elem_enc_list_0)
next
  case (13 fe fd en reg ps)
  then show ?case
    by (simp add: ser_val_ok_obj)
next
  case (14 fe fd en reg es)
  then show ?case
    by (simp add: ser_val_ok_map elem_enc_entries_0)
next
  case (15 fe fd en reg xs)
  then show ?case
    by (simp add: ser_val_ok_set elem_enc_list_0)
next
  case (16 fe fd en reg i name cause)
  show ?case
  proof (cases "truthy cause")
    case True
    with 16 obtain fd' where "fd = Suc fd'" and "rt_ok fe fd' en reg cause"
      by (auto split: nat.splits)
    with 16(1) True have "ser_val_ok fe en cause (enc fe en cause)"
      by simp
    with True show ?thesis
      by (simp add: ser_val_ok_err_cause)
  next
    case False
    then show ?thesis
      by (simp add: ser_val_ok_err_plain)
  qed
next
  case (24 fe fd en reg c ps)
  from 24(2) obtain fe' t s where fe: "fe = Suc fe'" and t: "sym_tag en c = VStr t" "t \<noteq> []"
    and s: "sym_serialize en c = VFn s"
    and ok: "rt_ok fe' fd en reg (call en s (VFn c) (VCustom c ps))"
    by (auto split: nat.splits jsval.splits)
  from 24(1) [OF fe t(1) s] ok
  have "ser_val_ok fe' en (call en s (VFn c) (VCustom c ps)) (enc fe' en (call en s (VFn c) (VCustom c ps)))"
    by simp
  then show ?case
    by (simp add: fe t s ser_val_ok_custom)
next
  case (26 fe fd en reg x xs)
  then show ?case
    by (auto simp: ser_list_ok_Cons ser_val_ok_leaf)
next
  case (28 fe fd en reg k v ps)
  then show ?case
    by (simp add: ser_props_ok_Cons)
next
  case (30 fe fd en reg k v es)
  then show ?case
    by (simp add: ser_entries_ok_Cons)
next
  case (32 fe fd en reg x xs)
  then show ?case
    by (simp add: ser_list_ok_Cons)
qed (simp_all add: ser_val_ok_leaf ser_list_ok_Nil ser_props_ok_Nil ser_entries_ok_Nil)

lemma dec_list_ok_Nil: "dec_list_ok f en reg [] []"
  by (simp add: dec_list_ok_def)

lemma dec_list_ok_Cons:
  assumes x: "dec_ok f en reg d v" and xs: "dec_list_ok f en reg ds vs"
  shows "dec_list_ok f en reg (d # ds) (to_slot v # vs)"
  unfolding dec_list_ok_def
proof
  fix T :: "jsval list"
  from x obtain N1 j where 1: "de_val T d = Inr (T @ N1, Some j)"
    and r1: "\<And>rest. dec_revive f en reg (T @ N1 @ rest) j = Inr v"
    unfolding dec_ok_def by blast
  from xs obtain N2 js where 2: "de_list (T @ N1) ds = Inr ((T @ N1) @ N2, js)"
    and r2: "\<And>rest. dec_revive_list f en reg ((T @ N1) @ N2 @ rest) js = Inr vs"
    unfolding dec_list_ok_def by blast
  have "de_list T (d # ds) = Inr (T @ (N1 @ N2), j # js)"
    using 1 2 by simp
  moreover have "dec_revive_list f en reg (T @ (N1 @ N2) @ rest) (j # js) = Inr (to_slot v # vs)" for rest
    using r1 [of "N2 @ rest"] r2 [of rest] by simp
  ultimately show "\<exists>N js. de_list T (d # ds) = Inr (T @ N, js) \<and>
      (\<forall>rest. dec_revive_list f en reg (T @ N @ rest) js = Inr (to_slot v # vs))"
    by blast
qed

lemma dec_props_ok_Nil: "dec_props_ok f en reg [] []"
  by (simp add: dec_props_ok_def)

lemma dec_props_ok_Cons:
  assumes x: "dec_ok f en reg d v" and v: "v \<noteq> VUndefined" and xs: "dec_props_ok f en reg ds vs"
  shows "dec_props_ok f en reg ((k, d) # ds) ((k, v) # vs)"
  unfolding dec_props_ok_def
proof
  fix T :: "jsval list"
  from x obtain N1 j where 1: "de_val T d = Inr (T @ N1, Some j)"
    and r1: "\<And>rest. dec_revive f en reg (T @ N1 @ rest) j = Inr v"
    unfolding dec_ok_def by blast
  from xs obtain N2 js where 2: "de_props (T @ N1) ds = Inr ((T @ N1) @ N2, js)"
    and r2: "\<And>rest. dec_revive_props f en reg ((T @ N1) @ N2 @ rest) js = Inr vs"
    unfolding dec_props_ok_def by blast
  have "de_props T ((k, d) # ds) = Inr (T @ (N1 @ N2), (k, j) # js)"
    using 1 2 by simp
  moreover have "dec_revive_props f en reg (T @ (N1 @ N2) @ rest) ((k, j) # js) = Inr ((k, v) # vs)" for rest
    using r1 [of "N2 @ rest"] r2 [of rest] v by simp
  ultimately show "\<exists>N js. de_props T ((k, d) # ds) = Inr (T @ N, js) \<and>
      (\<forall>rest. dec_revive_props f en reg (T @ N @ rest) js = Inr ((k, v) # vs))"
    by blast
qed

lemma dec_ok_leaf:
  "dec_ok f en reg VNull VNull"
  "dec_ok f en reg (VBool b) (VBool b)"
  "dec_ok f en reg (VNum (Finite r)) (VNum (Finite r))"
  "dec_ok f en reg (VStr s) (VStr s)"
  by (simp_all add: dec_ok_def)

lemma dec_ok_arr:
  assumes xs: "dec_list_ok f en reg ds vs" and ne: "\<not> is_err_tagged vs"
    and rv: "\<And>T. dec_reviver en reg T (VArr vs) = Inr r"
  shows "dec_ok f en reg (VArr ds) r"
  unfolding dec_ok_def
proof
  fix T :: "jsval list"
  from xs obtain N js where 1: "de_list T ds = Inr (T @ N, js)"
    and r1: "\<And>rest. dec_revive_list f en reg (T @ N @ rest) js = Inr vs"
    unfolding dec_list_ok_def by blast
  have "de_val T (VArr ds) = Inr (T @ N, Some (JArr js))"
    using 1 by simp
  moreover have "dec_revive f en reg (T @ N @ rest) (JArr js) = Inr r" for rest
    using ne by (simp add: r1 rv)
  ultimately show "\<exists>N j. de_val T (VArr ds) = Inr (T @ N, Some j) \<and>
      (\<forall>rest. dec_revive f en reg (T @ N @ rest) j = Inr r)"
    by blast
qed

lemma dec_ok_obj:
  assumes xs: "dec_props_ok f en reg ds vs"
  shows "dec_ok f en reg (VObj ds) (VObj vs)"
  unfolding dec_ok_def
proof
  fix T :: "jsval list"
  from xs obtain N js where 1: "de_props T ds = Inr (T @ N, js)"
    and r1: "\<And>rest. dec_revive_props f en reg (T @ N @ rest) js = Inr vs"
    unfolding dec_props_ok_def by blast
  have "de_val T (VObj ds) = Inr (T @ N, Some (JObj js))"
    using 1 by simp
  moreover have "dec_revive f en reg (T @ N @ rest) (JObj js) = Inr (VObj vs)" for rest
    by (simp add: r1)
  ultimately show "\<exists>N j. de_val T (VObj ds) = Inr (T @ N, Some j) \<and>
      (\<forall>rest. dec_revive f en reg (T @ N @ rest) j = Inr (VObj vs))"
    by blast
qed

lemma dec_list_ok_prefix:
  assumes "dec_list_ok f en reg ds vs"
  shows "dec_list_ok f en reg (esc_vals xs @ ds) (esc_vals xs @ vs)"
proof (cases "elem xs 0 = VStr ''_''")
  case True
  have s: "dec_ok f en reg (VStr ''_'') (VStr ''_'')" by (rule dec_ok_leaf)
  from dec_list_ok_Cons [OF s dec_list_ok_Cons [OF s assms]] True show ?thesis
    by (simp add: esc_vals_def)
next
  case False
  with assms show ?thesis by (simp add: esc_vals_def)
qed

lemma not_err_tagged_esc:
  assumes "elem ys 0 = elem xs 0"
  shows "\<not> is_err_tagged (esc_vals xs @ ys)"
  using assms by (cases "elem xs 0 = VStr ''_''") (simp_all add: esc_vals_def is_err_tagged_def)

lemma dec_reviver_esc:
  assumes "elem ys 0 = elem xs 0"
  shows "dec_reviver en reg T (VArr (esc_vals xs @ ys)) = Inr (VArr ys)"
proof (cases "elem xs 0 = VStr ''_''")
  case True
  with assms have "ys \<noteq> []" by auto
  with True show ?thesis
    by (cases ys) (simp_all add: esc_vals_def dec_reviver_def)
next
  case False
  with assms show ?thesis by (simp add: esc_vals_def dec_reviver_def)
qed

lemma dec_ok_esc_arr:
  assumes xs: "dec_list_ok f en reg ds ys" and h: "elem ys 0 = elem xs 0"
  shows "dec_ok f en reg (VArr (esc_vals xs @ ds)) (VArr ys)"
  by (rule dec_ok_arr [OF dec_list_ok_prefix [OF xs] not_err_tagged_esc [OF h] dec_reviver_esc [OF h]])

lemma dec_ok_str_list2:
  "dec_list_ok f en reg [VStr a, VStr b] [VStr a, VStr b]"
  using dec_list_ok_Cons [OF dec_ok_leaf(4) dec_list_ok_Cons [OF dec_ok_leaf(4) dec_list_ok_Nil]]
  by simp

lemma dec_ok_undefined:
  "dec_ok f en reg (VArr [VStr ''_'', VStr ''_'']) VUndefined"
  by (rule dec_ok_arr [OF dec_ok_str_list2]) (simp_all add: is_err_tagged_def dec_reviver_def)

lemma dec_list_ok_tag:
  assumes "dec_list_ok f en reg ds vs"
  shows "dec_list_ok f en reg (VStr a # VStr b # ds) (VStr a # VStr b # vs)"
  using dec_list_ok_Cons [OF dec_ok_leaf(4) dec_list_ok_Cons [OF dec_ok_leaf(4) assms]]
  by simp

text \<open>Sets\<close>

lemma svz_to_slot [simp]: "svz y (to_slot x) = svz y x"
  by (cases x) (simp_all add: svz_def)

lemma key_norm_to_slot: "x \<noteq> VEmpty \<Longrightarrow> key_norm x = x \<Longrightarrow> key_norm (to_slot x) = x"
  by (cases x) simp_all

lemma foldl_set_ins:
  assumes "keys_distinct xs" and "\<forall>x\<in>set xs. x \<noteq> VEmpty \<and> key_norm x = x"
    and "\<forall>a\<in>set acc. \<forall>x\<in>set xs. \<not> svz a x"
  shows "foldl set_ins acc (map to_slot xs) = acc @ xs"
  using assms
proof (induction xs arbitrary: acc)
  case Nil
  then show ?case by simp
next
  case (Cons x xs)
  have 1: "set_ins acc (to_slot x) = acc @ [x]"
    using Cons.prems by (simp add: set_ins_def list_ex_iff key_norm_to_slot)
  have "foldl set_ins (acc @ [x]) (map to_slot xs) = (acc @ [x]) @ xs"
    using Cons.prems by (intro Cons.IH) (auto simp: list_ex_iff)
  with 1 show ?case by simp
qed

lemma dec_ok_set:
  assumes xs: "dec_list_ok f en reg ds (map to_slot xs)"
    and d: "keys_distinct xs" and n: "\<forall>x\<in>set xs. x \<noteq> VEmpty \<and> key_norm x = x"
  shows "dec_ok f en reg (VArr [VStr ''_'', VStr ''Set'', VArr (esc_vals xs @ ds)]) (VSet xs)"
proof -
  have h: "elem (map to_slot xs) 0 = elem xs 0"
    by (cases xs) (simp_all add: rd_to_slot)
  have inner: "dec_ok f en reg (VArr (esc_vals xs @ ds)) (VArr (map to_slot xs))"
    by (rule dec_ok_esc_arr [OF xs h])
  have l: "dec_list_ok f en reg [VStr ''_'', VStr ''Set'', VArr (esc_vals xs @ ds)]
      [VStr ''_'', VStr ''Set'', VArr (map to_slot xs)]"
    using dec_list_ok_tag [OF dec_list_ok_Cons [OF inner dec_list_ok_Nil]] by simp
  have "foldl set_ins [] (map to_slot xs) = [] @ xs"
    by (rule foldl_set_ins [OF d n]) simp
  then show ?thesis
    by (intro dec_ok_arr [OF l]) (simp_all add: is_err_tagged_def dec_reviver_def)
qed

text \<open>Maps\<close>

lemma rd_id: "x \<noteq> VEmpty \<Longrightarrow> rd x = x"
  by (cases x) simp_all

lemma map_set_append:
  assumes "\<forall>a\<in>set m. \<not> svz (fst a) k" and "key_norm k = k"
  shows "map_set m k v = m @ [(k, v)]"
  using assms(1)
proof (induction m)
  case Nil
  show ?case by (simp add: assms(2))
next
  case (Cons a m)
  obtain k' v' where a: "a = (k', v')" by (cases a)
  from Cons.prems a have "\<not> svz k' k" by simp
  moreover from Cons.prems have "map_set m k v = m @ [(k, v)]"
    by (intro Cons.IH) simp
  ultimately show ?case by (simp add: a)
qed

lemma map_fill_entries:
  assumes "keys_distinct (map fst es)"
    and "\<forall>e\<in>set es. fst e \<noteq> VEmpty \<and> key_norm (fst e) = fst e \<and> snd e \<noteq> VEmpty"
    and "\<forall>a\<in>set m. \<forall>e\<in>set es. \<not> svz (fst a) (fst e)"
  shows "map_fill m (map (\<lambda>(k, v). VArr [to_slot k, to_slot v]) es) = Inr (m @ es)"
  using assms
proof (induction es arbitrary: m)
  case Nil
  then show ?case by simp
next
  case (Cons e es)
  obtain k v where e: "e = (k, v)" by (cases e)
  from Cons.prems(2) e have kv: "k \<noteq> VEmpty" "key_norm k = k" "v \<noteq> VEmpty"
    by simp_all
  have rk: "rd k = k" and rv: "rd v = v"
    using kv by (simp_all add: rd_id)
  from Cons.prems(3) e have "\<forall>a\<in>set m. \<not> svz (fst a) k"
    by simp
  then have ms: "map_set m k v = m @ [(k, v)]"
    using kv(2) by (rule map_set_append)
  have d1: "keys_distinct (map fst es)" and d2: "\<forall>e'\<in>set es. \<not> svz k (fst e')"
    using Cons.prems(1) e by (simp_all add: list_ex_iff)
  have p2: "\<forall>e\<in>set es. fst e \<noteq> VEmpty \<and> key_norm (fst e) = fst e \<and> snd e \<noteq> VEmpty"
    using Cons.prems(2) by simp
  have p3: "\<forall>a\<in>set (m @ [(k, v)]). \<forall>e\<in>set es. \<not> svz (fst a) (fst e)"
    using Cons.prems(3) d2 by simp
  have "map_fill (m @ [(k, v)]) (map (\<lambda>(k, v). VArr [to_slot k, to_slot v]) es) = Inr ((m @ [(k, v)]) @ es)"
    by (rule Cons.IH [OF d1 p2 p3])
  then show ?case
    by (simp add: e rd_to_slot rk rv ms)
qed

lemma dec_ok_map:
  assumes es: "dec_list_ok f en reg ds (map (\<lambda>(k, v). VArr [to_slot k, to_slot v]) es)"
    and d: "keys_distinct (map fst es)"
    and n: "\<forall>e\<in>set es. fst e \<noteq> VEmpty \<and> key_norm (fst e) = fst e \<and> snd e \<noteq> VEmpty"
  shows "dec_ok f en reg (VArr [VStr ''_'', VStr ''Map'', VArr ds]) (VMap es)"
proof -
  let ?ps = "map (\<lambda>(k, v). VArr [to_slot k, to_slot v]) es"
  have h: "elem ?ps 0 \<noteq> VStr ''_''"
    by (cases es) auto
  have inner: "dec_ok f en reg (VArr ds) (VArr ?ps)"
    using h by (intro dec_ok_arr [OF es]) (simp_all add: is_err_tagged_def dec_reviver_def)
  have l: "dec_list_ok f en reg [VStr ''_'', VStr ''Map'', VArr ds] [VStr ''_'', VStr ''Map'', VArr ?ps]"
    using dec_list_ok_tag [OF dec_list_ok_Cons [OF inner dec_list_ok_Nil]] by simp
  have "map_fill [] ?ps = Inr ([] @ es)"
    by (rule map_fill_entries [OF d n]) simp
  then show ?thesis
    by (intro dec_ok_arr [OF l]) (simp_all add: is_err_tagged_def dec_reviver_def)
qed

lemma dec_list_ok_entry:
  assumes k: "dec_ok f en reg dk k" and v: "dec_ok f en reg dv v"
    and es: "dec_list_ok f en reg ds vs"
  shows "dec_list_ok f en reg (VArr (esc_vals [k, v] @ [dk, dv]) # ds)
      (VArr [to_slot k, to_slot v] # vs)"
proof -
  have l: "dec_list_ok f en reg [dk, dv] [to_slot k, to_slot v]"
    by (rule dec_list_ok_Cons [OF k dec_list_ok_Cons [OF v dec_list_ok_Nil]])
  have h: "elem [to_slot k, to_slot v] 0 = elem [k, v] 0"
    by (simp add: rd_to_slot)
  from dec_list_ok_Cons [OF dec_ok_esc_arr [OF l h] es] show ?thesis by simp
qed

lemma dec_revive_ref:
  "dec_revive f en reg (T @ v # rest) (ref_json (length T)) = Inr v"
  by (simp add: ref_json_def is_err_tagged_def dec_reviver_def table_get_last del: table_get.simps)

lemma de_val_err: "de_val T (VErr i n c) = Inr (T @ [VErr i n c], Some (ref_json (length T)))"
  by simp

lemma dec_ok_err_plain:
  assumes "\<not> truthy c"
  shows "dec_ok f en reg (VArr [VStr ''_'', VStr ''_err'', VErr i n0 c, VStr name]) (VErr i name c)"
  unfolding dec_ok_def
proof
  fix T :: "jsval list"
  let ?j = "JArr [JStr ''_'', JStr ''_err'', ref_json (length T), JStr name]"
  have "de_val T (VArr [VStr ''_'', VStr ''_err'', VErr i n0 c, VStr name])
      = Inr (T @ [VErr i n0 c], Some ?j)"
    by simp
  moreover have "dec_revive f en reg (T @ [VErr i n0 c] @ rest) ?j = Inr (VErr i name c)" for rest
    using assms by (simp add: dec_revive_ref is_err_tagged_def)
  ultimately show "\<exists>N j. de_val T (VArr [VStr ''_'', VStr ''_err'', VErr i n0 c, VStr name])
        = Inr (T @ N, Some j) \<and>
      (\<forall>rest. dec_revive f en reg (T @ N @ rest) j = Inr (VErr i name c))"
    by blast
qed

lemma deserializer_of_ok:
  assumes "dec_ok f en reg d v"
  shows "deserializer f en reg d = Inr v"
proof -
  from assms obtain N j where 1: "de_val [] d = Inr ([] @ N, Some j)"
    and r: "\<And>rest. dec_revive f en reg ([] @ N @ rest) j = Inr v"
    unfolding dec_ok_def by blast
  from r [of "[]"] 1 show ?thesis by (simp add: deserializer.simps)
qed

lemma dec_ok_err_cause:
  assumes t: "truthy c" and c: "dec_ok f en reg c cv"
  shows "dec_ok (Suc f) en reg (VArr [VStr ''_'', VStr ''_err'', VErr i n0 c, VStr name]) (VErr i name cv)"
  unfolding dec_ok_def
proof
  fix T :: "jsval list"
  let ?j = "JArr [JStr ''_'', JStr ''_err'', ref_json (length T), JStr name]"
  have "de_val T (VArr [VStr ''_'', VStr ''_err'', VErr i n0 c, VStr name])
      = Inr (T @ [VErr i n0 c], Some ?j)"
    by simp
  moreover have "dec_revive (Suc f) en reg (T @ [VErr i n0 c] @ rest) ?j = Inr (VErr i name cv)" for rest
    using t by (simp add: dec_revive_ref is_err_tagged_def deserializer_of_ok [OF c])
  ultimately show "\<exists>N j. de_val T (VArr [VStr ''_'', VStr ''_err'', VErr i n0 c, VStr name])
        = Inr (T @ N, Some j) \<and>
      (\<forall>rest. dec_revive (Suc f) en reg (T @ N @ rest) j = Inr (VErr i name cv))"
    by blast
qed

lemma dec_ok_custom:
  assumes p: "dec_ok f en reg dp p" and ne: "p \<noteq> VEmpty" and r: "reg t = Some (VFn d, this)"
  shows "dec_ok f en reg (VArr [VStr ''_'', VStr ''_custom'', VStr t, dp]) (call en d this p)"
proof -
  have l: "dec_list_ok f en reg [VStr ''_'', VStr ''_custom'', VStr t, dp]
      [VStr ''_'', VStr ''_custom'', VStr t, to_slot p]"
    using dec_list_ok_tag [OF dec_list_ok_Cons [OF dec_ok_leaf(4) dec_list_ok_Cons [OF p dec_list_ok_Nil]]]
    by simp
  show ?thesis
    using r ne by (intro dec_ok_arr [OF l])
      (simp_all add: is_err_tagged_def dec_reviver_def rd_to_slot rd_id)
qed

lemma rt_ok_norm: "rt_ok fe fd en reg v \<Longrightarrow> v \<noteq> VEmpty \<and> key_norm v = v"
  by (cases v rule: key_norm.cases) auto

lemma rt_ok_members_norm:
  "rt_ok_members fe fd en reg xs \<Longrightarrow> \<forall>x\<in>set xs. x \<noteq> VEmpty \<and> key_norm x = x"
  by (induction xs) (auto dest: rt_ok_norm)

lemma rt_ok_entries_norm:
  "rt_ok_entries fe fd en reg es \<Longrightarrow>
   \<forall>e\<in>set es. fst e \<noteq> VEmpty \<and> key_norm (fst e) = fst e \<and> snd e \<noteq> VEmpty"
proof (induction es)
  case Nil
  then show ?case by simp
next
  case (Cons e es)
  obtain k v where e: "e = (k, v)" by (cases e)
  from Cons.prems e have k: "rt_ok fe fd en reg k" and v: "rt_ok fe fd en reg v"
    and es: "rt_ok_entries fe fd en reg es"
    by simp_all
  from rt_ok_norm [OF k] rt_ok_norm [OF v] Cons.IH [OF es] show ?case
    by (simp add: e)
qed

lemma rt_ok_customE:
  assumes "rt_ok fe fd en reg (VCustom c ps)"
  obtains fe' t s d this where "fe = Suc fe'" and "sym_tag en c = VStr t" and "t \<noteq> []"
    and "sym_serialize en c = VFn s"
    and "rt_ok fe' fd en reg (call en s (VFn c) (VCustom c ps))"
    and "reg t = Some (VFn d, this)"
    and "call en d this (call en s (VFn c) (VCustom c ps)) = VCustom c ps"
proof -
  from assms obtain fe' where fe: "fe = Suc fe'"
    by (cases fe) auto
  from assms fe obtain t where t: "sym_tag en c = VStr t"
    by (cases "sym_tag en c") auto
  from assms fe t obtain s where s: "sym_serialize en c = VFn s"
    by (cases "sym_serialize en c") auto
  from assms fe t s have ok: "t \<noteq> []" "rt_ok fe' fd en reg (call en s (VFn c) (VCustom c ps))"
    by auto
  from assms fe t s obtain h this where r: "reg t = Some (h, this)"
    by (cases "reg t") auto
  from assms fe t s r obtain d where h: "h = VFn d"
    by (cases h) auto
  from assms fe t s r h have "call en d this (call en s (VFn c) (VCustom c ps)) = VCustom c ps"
    by simp
  with fe t s ok r h that show thesis
    by blast
qed

lemma dec_correct:
  "rt_ok fe fd en reg v \<Longrightarrow> dec_ok fd en reg (enc fe en v) v"
  "rt_ok_list fe fd en reg xs \<Longrightarrow> dec_list_ok fd en reg (enc_list fe en xs) xs"
  "rt_ok_props fe fd en reg ps \<Longrightarrow> dec_props_ok fd en reg (enc_props fe en ps) ps"
  "rt_ok_entries fe fd en reg es \<Longrightarrow>
     dec_list_ok fd en reg (enc_entries fe en es) (map (\<lambda>(k, v). VArr [to_slot k, to_slot v]) es)"
  "rt_ok_members fe fd en reg ys \<Longrightarrow> dec_list_ok fd en reg (enc_list fe en ys) (map to_slot ys)"
proof (induction fe fd en reg v and fe fd en reg xs and fe fd en reg ps
    and fe fd en reg es and fe fd en reg ys
    rule: rt_ok_rt_ok_list_rt_ok_props_rt_ok_entries_rt_ok_members.induct)
  case (12 fe fd en reg xs)
  then show ?case
    by (simp add: dec_ok_esc_arr)
next
  case (13 fe fd en reg ps)
  then show ?case
    by (simp add: dec_ok_obj)
next
  case (14 fe fd en reg es)
  then have e: "rt_ok_entries fe fd en reg es" and d: "keys_distinct (map fst es)"
    by simp_all
  from dec_ok_map [OF 14(1) [OF e] d rt_ok_entries_norm [OF e]] show ?case
    by simp
next
  case (15 fe fd en reg xs)
  then have e: "rt_ok_members fe fd en reg xs" and d: "keys_distinct xs"
    by simp_all
  from dec_ok_set [OF 15(1) [OF e] d rt_ok_members_norm [OF e]] show ?case
    by simp
next
  case (16 fe fd en reg i name cause)
  show ?case
  proof (cases "truthy cause")
    case True
    with 16 obtain fd' where fd: "fd = Suc fd'" and ok: "rt_ok fe fd' en reg cause"
      by (auto split: nat.splits)
    with 16(1) True have "dec_ok fd' en reg (enc fe en cause) cause"
      by simp
    with True show ?thesis
      by (simp add: fd dec_ok_err_cause truthy_enc)
  next
    case False
    then show ?thesis
      by (simp add: dec_ok_err_plain)
  qed
next
  case (24 fe fd en reg c ps)
  from 24(2) obtain fe' t s d this where fe: "fe = Suc fe'" and t: "sym_tag en c = VStr t"
    and s: "sym_serialize en c = VFn s"
    and ok: "rt_ok fe' fd en reg (call en s (VFn c) (VCustom c ps))"
    and r: "reg t = Some (VFn d, this)"
    and inv: "call en d this (call en s (VFn c) (VCustom c ps)) = VCustom c ps"
    by (rule rt_ok_customE)
  let ?p = "call en s (VFn c) (VCustom c ps)"
  from 24(1) [OF fe t s] ok have "dec_ok fd en reg (enc fe' en ?p) ?p"
    by simp
  moreover from ok have "?p \<noteq> VEmpty"
    by (auto dest: rt_ok_norm)
  ultimately have "dec_ok fd en reg (VArr [VStr ''_'', VStr ''_custom'', VStr t, enc fe' en ?p])
      (call en d this ?p)"
    using r by (rule dec_ok_custom)
  then show ?case
    by (simp add: fe t s inv)
next
  case (26 fe fd en reg x xs)
  show ?case
  proof (cases "x = VEmpty")
    case True
    with 26 dec_list_ok_Cons [OF dec_ok_undefined, of fd en reg "enc_list fe en xs" xs]
    show ?thesis by simp
  next
    case False
    with 26 dec_list_ok_Cons [of fd en reg "enc fe en x" x "enc_list fe en xs" xs]
    show ?thesis by simp
  qed
next
  case (28 fe fd en reg k v ps)
  then show ?case
    by (simp add: dec_props_ok_Cons)
next
  case (30 fe fd en reg k v es)
  then show ?case
    by (simp add: dec_list_ok_entry)
next
  case (32 fe fd en reg x xs)
  then show ?case
    by (simp add: dec_list_ok_Cons)
qed (simp_all add: dec_ok_leaf dec_ok_undefined dec_list_ok_Nil dec_props_ok_Nil)

lemma json_plain_dec:
  "json_plain v \<Longrightarrow> dec_ok f en reg v v"
  "json_plain_list xs \<Longrightarrow> dec_list_ok f en reg xs xs"
  "json_plain_props ps \<Longrightarrow> dec_props_ok f en reg ps ps"
proof (induction v and xs and ps rule: json_plain_json_plain_list_json_plain_props.induct)
  case (5 xs)
  then have l: "dec_list_ok f en reg xs xs" and h: "elem xs 0 \<noteq> VStr ''_''"
    by simp_all
  from h show ?case
    by (intro dec_ok_arr [OF l]) (simp_all add: is_err_tagged_def dec_reviver_def)
next
  case (6 ps)
  then show ?case by (simp add: dec_ok_obj)
next
  case (9 x xs)
  then have x: "dec_ok f en reg x x" and xs: "dec_list_ok f en reg xs xs" and "x \<noteq> VUndefined"
    by auto
  with dec_list_ok_Cons [OF x xs] show ?case by simp
next
  case (11 k v ps)
  then have "dec_ok f en reg v v" "dec_props_ok f en reg ps ps" "v \<noteq> VUndefined"
    by auto
  then show ?case by (simp add: dec_props_ok_Cons)
qed (simp_all add: dec_ok_leaf dec_list_ok_Nil dec_props_ok_Nil)

subsection \<open>Plain data\<close>

text \<open>
  C10 (amended).  On a value built only from \<^verbatim>\<open>null\<close>, booleans, strings, finite
  numbers other than \<^verbatim>\<open>-0\<close>, arrays whose first element is not the sentinel and plain
  objects, \<^verbatim>\<open>deserializer\<close> returns normally, with any fuel and any registry, and the
  result is the value itself.
\<close>

theorem deserializer_json_plain:
  assumes "json_plain v"
  shows "deserializer f en reg v = Inr v"
  by (rule deserializer_of_ok [OF json_plain_dec(1) [OF assms]])

theorem deserializer_json_plain_witness:
  "deserializer 0 env_none Map.empty
     (VObj [(''a'', VArr [VNum (Finite 1), VStr ''_'', VNull]), (''b'', VBool True)])
   = Inr (VObj [(''a'', VArr [VNum (Finite 1), VStr ''_'', VNull]), (''b'', VBool True)])"
  by (rule deserializer_json_plain) simp

text \<open>C10 as stated fails: \<^verbatim>\<open>-0\<close> is a finite number and decodes to \<^verbatim>\<open>0\<close>, which
  is a different value.\<close>

theorem deserializer_json_plain_counterexample:
  "deserializer 0 env_none Map.empty (VNum NegZero) = Inr (VNum (Finite 0))
   \<and> VNum (Finite 0) \<noteq> VNum NegZero"
  by (simp add: deserializer.simps)

subsection \<open>The round trip\<close>

lemma roundtrip_enc:
  assumes "rt_ok fe fd en reg v"
  shows "\<exists>r w'. serializer fe en w v = Inr (r, w') \<and> data r = enc fe en v
     \<and> deserializer fd en reg (data r) = Inr v"
  using serializer_of_ok [OF enc_correct(1) [OF assms], of w]
    deserializer_of_ok [OF dec_correct(1) [OF assms]]
  by auto

lemma rt_ok_mono:
  "rt_ok fe fd en reg v \<Longrightarrow> rt_ok (fe + a) (fd + b) en reg v"
  "rt_ok_list fe fd en reg xs \<Longrightarrow> rt_ok_list (fe + a) (fd + b) en reg xs"
  "rt_ok_props fe fd en reg ps \<Longrightarrow> rt_ok_props (fe + a) (fd + b) en reg ps"
  "rt_ok_entries fe fd en reg es \<Longrightarrow> rt_ok_entries (fe + a) (fd + b) en reg es"
  "rt_ok_members fe fd en reg ys \<Longrightarrow> rt_ok_members (fe + a) (fd + b) en reg ys"
proof (induction fe fd en reg v and fe fd en reg xs and fe fd en reg ps
    and fe fd en reg es and fe fd en reg ys
    rule: rt_ok_rt_ok_list_rt_ok_props_rt_ok_entries_rt_ok_members.induct)
  case (16 fe fd en reg i name cause)
  show ?case
  proof (cases "truthy cause")
    case True
    with 16 obtain fd' where fd: "fd = Suc fd'" and ok: "rt_ok fe fd' en reg cause"
      by (auto split: nat.splits)
    from 16(1) [OF True fd ok] True show ?thesis
      by (simp add: fd)
  next
    case False
    then show ?thesis by simp
  qed
next
  case (24 fe fd en reg c ps)
  from 24(2) obtain fe' t s d this where fe: "fe = Suc fe'" and t: "sym_tag en c = VStr t" "t \<noteq> []"
    and s: "sym_serialize en c = VFn s"
    and ok: "rt_ok fe' fd en reg (call en s (VFn c) (VCustom c ps))"
    and r: "reg t = Some (VFn d, this)"
    and inv: "call en d this (call en s (VFn c) (VCustom c ps)) = VCustom c ps"
    by (rule rt_ok_customE)
  from 24(1) [OF fe t(1) s ok] show ?case
    by (simp add: fe t s r inv)
next
  case (26 fe fd en reg x xs)
  then show ?case by auto
qed simp_all

text \<open>
  C1.  The round trip returns the original value for every value covered by \<open>rt_ok\<close>
  whose Error objects are pairwise different: values built from \<^verbatim>\<open>null\<close>, booleans,
  strings, finite numbers other than \<^verbatim>\<open>-0\<close>, arrays (with holes, and also those that
  start with the sentinel), plain objects, Maps, Sets, Errors whose cause is empty or
  covered, registered custom objects, and \<open>undefined\<close> at the top, as a key, value or
  member of a collection, or as a payload.  This holds with the fuel that \<open>rt_ok\<close> needs
  and with every larger fuel.

  It does not return the original value when \<open>undefined\<close> is the value of a property or
  an element of an array.  The encoder writes the sentinel pair for it (line 50) and the
  reviver of the decoder returns \<open>undefined\<close> for the pair (line 167), as it does at the
  other places; but a reviver that returns \<open>undefined\<close> makes \<^verbatim>\<open>JSON.parse\<close> delete
  the property or the element.  So \<^verbatim>\<open>{k: undefined}\<close> is encoded as
  \<^verbatim>\<open>{k: ['_', '_']}\<close> and comes back as \<^verbatim>\<open>{}\<close>, and \<^verbatim>\<open>[undefined]\<close> is encoded as
  \<^verbatim>\<open>[['_', '_']]\<close> and comes back as an array of length one with a hole.
\<close>

theorem roundtrip:
  "(rt_ok fe fd en reg v \<and> distinct (err_ids fe' en v) \<and> fe \<le> fe' \<and> fd \<le> fd' \<longrightarrow>
      (\<exists>r w'. serializer fe' en w v = Inr (r, w') \<and> deserializer fd' en reg (data r) = Inr v))
   \<and> serializer fe en w (VObj [(k, VUndefined)]) =
       Inr (\<lparr>data = VObj [(k, VArr [VStr ''_'', VStr ''_''])],
             res_transferables = [], res_revokables = []\<rparr>, w)
   \<and> deserializer fd en reg (VObj [(k, VArr [VStr ''_'', VStr ''_''])]) = Inr (VObj [])
   \<and> serializer fe en w (VArr [VUndefined]) =
       Inr (\<lparr>data = VArr [VArr [VStr ''_'', VStr ''_'']],
             res_transferables = [], res_revokables = []\<rparr>, w)
   \<and> deserializer fd en reg (VArr [VArr [VStr ''_'', VStr ''_'']]) = Inr (VArr [VEmpty])"
proof (intro conjI impI)
  assume a: "rt_ok fe fd en reg v \<and> distinct (err_ids fe' en v) \<and> fe \<le> fe' \<and> fd \<le> fd'"
  with rt_ok_mono(1) [of fe fd en reg v "fe' - fe" "fd' - fd"]
  have "rt_ok fe' fd' en reg v" by simp
  from roundtrip_enc [OF this, of w]
  show "\<exists>r w'. serializer fe' en w v = Inr (r, w') \<and> deserializer fd' en reg (data r) = Inr v"
    by blast
next
  show "serializer fe en w (VObj [(k, VUndefined)]) =
       Inr (\<lparr>data = VObj [(k, VArr [VStr ''_'', VStr ''_''])],
             res_transferables = [], res_revokables = []\<rparr>, w)"
    by (simp add: serializer.simps enc_reviver_def)
  show "deserializer fd en reg (VObj [(k, VArr [VStr ''_'', VStr ''_''])]) = Inr (VObj [])"
    by (simp add: deserializer.simps dec_reviver_def is_err_tagged_def)
  show "serializer fe en w (VArr [VUndefined]) =
       Inr (\<lparr>data = VArr [VArr [VStr ''_'', VStr ''_'']],
             res_transferables = [], res_revokables = []\<rparr>, w)"
    by (simp add: serializer.simps enc_reviver_def escape_prefix_def)
  show "deserializer fd en reg (VArr [VArr [VStr ''_'', VStr ''_'']]) = Inr (VArr [VEmpty])"
    by (simp add: deserializer.simps dec_reviver_def is_err_tagged_def)
qed

lemma rt_ok_example: "rt_ok 1 0 env_X [''X'' \<mapsto> (VFn 2, VFn 1)] example_value"
  by (simp add: example_value_def env_X_def svz_def)

lemma err_ids_example: "err_ids 3 env_X example_value = [7]"
  by (simp add: example_value_def env_X_def numeral_3_eq_3)

theorem roundtrip_witness:
  "rt_ok 1 0 env_X [''X'' \<mapsto> (VFn 2, VFn 1)] example_value
   \<and> distinct (err_ids 3 env_X example_value)
   \<and> (\<exists>r w'. serializer 3 env_X world0 example_value = Inr (r, w')
         \<and> deserializer 2 env_X [''X'' \<mapsto> (VFn 2, VFn 1)] (data r) = Inr example_value)"
  using roundtrip [of 1 0 env_X "[''X'' \<mapsto> (VFn 2, VFn 1)]" example_value 3 2 world0]
    rt_ok_example err_ids_example
  by simp

subsection \<open>Custom tags\<close>

lemma entry_of_no_tag: "entry_of x \<noteq> Inl (UnknownTag t)"
  by (cases x) simp_all

lemma map_fill_no_tag: "map_fill m xs \<noteq> Inl (UnknownTag t)"
proof (induction xs arbitrary: m)
  case Nil
  show ?case by simp
next
  case (Cons x xs)
  show ?case
    using entry_of_no_tag [of x t] Cons.IH
    by (cases "entry_of x") (auto split: prod.splits)
qed

lemma map_ctor_no_tag: "map_ctor x \<noteq> Inl (UnknownTag t)"
  using map_fill_no_tag by (cases x) (auto split: sum.splits)

lemma set_ctor_no_tag: "set_ctor x \<noteq> Inl (UnknownTag t)"
  by (cases x) auto

lemma table_get_no_tag: "table_get T k \<noteq> Inl (UnknownTag t)"
  by (cases "(T, k)" rule: table_get.cases) simp_all

lemma call_bound_no_tag: "call_bound en h a \<noteq> Inl (UnknownTag t)"
  by (cases "(en, h, a)" rule: call_bound.cases) simp_all

lemma prop_key_no_tag: "prop_key x \<noteq> Inl (UnknownTag t)"
  by (cases x) simp_all

lemma dec_reviver_tag:
  assumes "dec_reviver en reg T v = Inl (UnknownTag t)"
  shows "\<exists>k. prop_key t = Inr k \<and> reg k = None"
proof (cases v)
  case (VArr xs)
  with assms show ?thesis
    using map_ctor_no_tag [of "elem xs 2" t] set_ctor_no_tag [of "elem xs 2" t]
      table_get_no_tag [of T "elem xs 2" t] prop_key_no_tag [of "elem xs 2" t]
    by (auto simp: dec_reviver_def call_bound_no_tag split: if_splits sum.splits option.splits)
qed (use assms in \<open>simp_all add: dec_reviver_def\<close>)

lemma de_val_error:
  "de_val T x = Inl e \<Longrightarrow> e = TypeError"
  "de_list T xs = Inl e \<Longrightarrow> e = TypeError"
  "de_props T ps = Inl e \<Longrightarrow> e = TypeError"
  by (induction T x and T xs and T ps rule: de_val_de_list_de_props.induct)
     (auto split: sum.splits prod.splits)

lemma unknown_tag_sound:
  "dec_revive f en reg T j = Inl (UnknownTag t) \<Longrightarrow> \<exists>k. prop_key t = Inr k \<and> reg k = None"
  "dec_revive_list f en reg T js = Inl (UnknownTag t) \<Longrightarrow> \<exists>k. prop_key t = Inr k \<and> reg k = None"
  "dec_revive_props f en reg T ps = Inl (UnknownTag t) \<Longrightarrow> \<exists>k. prop_key t = Inr k \<and> reg k = None"
  "deserializer f en reg d = Inl (UnknownTag t) \<Longrightarrow> \<exists>k. prop_key t = Inr k \<and> reg k = None"
proof (induction f en reg T j and f en reg T js and f en reg T ps and f en reg d
    rule: dec_revive_dec_revive_list_dec_revive_props_deserializer.induct)
  case (6 f en reg T js)
  show ?case
  proof (cases "dec_revive_list f en reg T js")
    case (Inl e)
    with 6 show ?thesis by simp
  next
    case (Inr xs)
    show ?thesis
    proof (cases "is_err_tagged xs")
      case False
      with 6(3) Inr have "dec_reviver en reg T (VArr xs) = Inl (UnknownTag t)" by simp
      then show ?thesis by (rule dec_reviver_tag)
    next
      case True
      with 6(3) Inr obtain i name cause carried f' where
        e: "elem xs 2 = VErr i name cause" and c: "elem xs 3 = VStr carried"
        and t: "truthy cause" and f: "f = Suc f'"
        and d: "deserializer f' en reg cause = Inl (UnknownTag t)"
        by (auto split: jsval.splits if_splits nat.splits sum.splits)
      from 6(2) [OF Inr True e c t f] d show ?thesis by simp
    qed
  qed
next
  case (11 f en reg d)
  show ?case
  proof (cases "de_val [] d")
    case (Inl e)
    with 11(2) de_val_error(1) [OF Inl] show ?thesis by (simp add: deserializer.simps)
  next
    case (Inr a)
    obtain T jo where a: "a = (T, jo)" by (cases a)
    show ?thesis
    proof (cases jo)
      case None
      with 11(2) Inr a show ?thesis by (simp add: deserializer.simps)
    next
      case (Some j)
      with 11(2) Inr a have "dec_revive f en reg T j = Inl (UnknownTag t)"
        by (simp add: deserializer.simps)
      with 11(1) [OF Inr a [symmetric] Some] show ?thesis by simp
    qed
  qed
qed (auto split: sum.splits if_splits)

lemma de_list_strs:
  "de_list T xs = Inr (T', js) \<Longrightarrow> dec_revive_list g en reg Tf js = Inr ys \<Longrightarrow>
   length ys = length xs \<and> (\<forall>i<length xs. \<forall>s. xs ! i = VStr s \<longrightarrow> ys ! i = VStr s)"
proof (induction xs arbitrary: T T' js ys)
  case Nil
  then show ?case by simp
next
  case (Cons x xs)
  from Cons.prems(1) obtain T1 jo js' where
    x: "de_val T x = Inr (T1, jo)" and l: "de_list T1 xs = Inr (T', js')"
    and js: "js = (case jo of None \<Rightarrow> JNull | Some j \<Rightarrow> j) # js'"
    by (auto split: sum.splits prod.splits)
  from Cons.prems(2) js obtain y ys' where
    y: "dec_revive g en reg Tf (case jo of None \<Rightarrow> JNull | Some j \<Rightarrow> j) = Inr y"
    and r: "dec_revive_list g en reg Tf js' = Inr ys'" and ys: "ys = to_slot y # ys'"
    by (auto split: sum.splits)
  have s: "y = VStr s" if "x = VStr s" for s
    using x y that by auto
  from Cons.IH [OF l r] ys s show ?case
    by (auto simp: nth_Cons split: nat.splits)
qed

lemma elem_str: "elem xs i = VStr s \<Longrightarrow> i < length xs \<and> xs ! i = VStr s"
  by (cases "i < length xs"; cases "xs ! i") (auto simp: elem_def split: if_splits)

lemma elem_strI: "i < length xs \<Longrightarrow> xs ! i = VStr s \<Longrightarrow> elem xs i = VStr s"
  by (simp add: elem_def)

lemma holds_tag_undecodable:
  "holds_tag tag x \<Longrightarrow> reg tag = None \<Longrightarrow> de_val T x = Inr (T', jo) \<Longrightarrow>
   \<exists>j. jo = Some j \<and> (\<forall>Tf y. dec_revive g en reg Tf j \<noteq> Inr y)"
  "holds_tag_list tag xs \<Longrightarrow> reg tag = None \<Longrightarrow> de_list T xs = Inr (T', js) \<Longrightarrow>
   \<forall>Tf ys. dec_revive_list g en reg Tf js \<noteq> Inr ys"
  "holds_tag_props tag ps \<Longrightarrow> reg tag = None \<Longrightarrow> de_props T ps = Inr (T', qs) \<Longrightarrow>
   \<forall>Tf rs. dec_revive_props g en reg Tf qs \<noteq> Inr rs"
proof (induction tag x and tag xs and tag ps arbitrary: T T' jo and T T' js and T T' qs
    rule: holds_tag_holds_tag_list_holds_tag_props.induct)
  case (1 tag xs)
  from "1.prems"(3) obtain js where l: "de_list T xs = Inr (T', js)" and jo: "jo = Some (JArr js)"
    by (auto split: sum.splits prod.splits)
  have "dec_revive g en reg Tf (JArr js) \<noteq> Inr y" for Tf y
  proof (cases "dec_revive_list g en reg Tf js")
    case (Inl e)
    then show ?thesis by simp
  next
    case (Inr ys)
    show ?thesis
    proof (cases "holds_tag_list tag xs")
      case True
      from "1.IH" [OF True "1.prems"(2) l] Inr show ?thesis by simp
    next
      case False
      with "1.prems"(1) have e: "elem xs 0 = VStr ''_''" "elem xs 1 = VStr ''_custom''"
        "elem xs 2 = VStr tag"
        by simp_all
      note s = de_list_strs [OF l Inr]
      have "elem ys 0 = VStr ''_''" "elem ys 1 = VStr ''_custom''" "elem ys 2 = VStr tag"
        using e [THEN elem_str] s by (auto intro!: elem_strI)
      then show ?thesis
        using Inr "1.prems"(2) by (simp add: is_err_tagged_def dec_reviver_def)
    qed
  qed
  with jo show ?case by simp
next
  case (2 tag ps)
  then show ?case by (auto split: sum.splits prod.splits)
next
  case (5 tag x xs)
  from "5.prems"(3) obtain T1 jo js' where
    x: "de_val T x = Inr (T1, jo)" and l: "de_list T1 xs = Inr (T', js')"
    and js: "js = (case jo of None \<Rightarrow> JNull | Some j \<Rightarrow> j) # js'"
    by (auto split: sum.splits prod.splits)
  show ?case
  proof (cases "holds_tag tag x")
    case True
    from "5.IH"(1) [OF True "5.prems"(2) x] js show ?thesis
      by (auto split: sum.splits)
  next
    case False
    with "5.prems"(1) have "holds_tag_list tag xs" by simp
    from "5.IH"(2) [OF this "5.prems"(2) l] js show ?thesis
      by (auto split: sum.splits)
  qed
next
  case (7 tag k v ps)
  from "7.prems"(3) obtain T1 jo qs' where
    x: "de_val T v = Inr (T1, jo)" and l: "de_props T1 ps = Inr (T', qs')"
    and qs: "qs = (case jo of None \<Rightarrow> qs' | Some j \<Rightarrow> (k, j) # qs')"
    by (auto split: sum.splits prod.splits)
  show ?case
  proof (cases "holds_tag tag v")
    case True
    from "7.IH"(1) [OF True "7.prems"(2) x] qs show ?thesis
      by (auto split: sum.splits)
  next
    case False
    with "7.prems"(1) have "holds_tag_props tag ps" by simp
    from "7.IH"(2) [OF this "7.prems"(2) l] qs show ?thesis
      by (auto split: sum.splits option.splits)
  qed
qed simp_all

lemma holds_tag_no_return:
  assumes "holds_tag tag d" and "reg tag = None"
  shows "deserializer g en reg d \<noteq> Inr y"
proof (cases "de_val [] d")
  case (Inl e)
  then show ?thesis by (simp add: deserializer.simps)
next
  case (Inr a)
  obtain T jo where a: "a = (T, jo)" by (cases a)
  from holds_tag_undecodable(1) [where reg = reg and tag = tag and g = g and en = en,
      OF assms Inr [unfolded a]] Inr a
  show ?thesis by (auto simp: deserializer.simps)
qed

lemma custom_tagged_decode:
  assumes "deserializer f en reg p = Inr p'"
  shows "deserializer f en reg (custom_tagged tag p) =
     (case reg tag of None \<Rightarrow> Inl (UnknownTag (VStr tag)) | Some h \<Rightarrow> call_bound en h (rd p'))"
proof -
  from assms obtain T j where d: "de_val [] p = Inr (T, Some j)"
    and r: "dec_revive f en reg T j = Inr p'"
    by (rule deserializer_SomeE)
  show ?thesis
    by (simp add: deserializer.simps custom_tagged_def d r dec_reviver_def is_err_tagged_def
        elem_def rd_to_slot split: option.splits)
qed

text \<open>
  C2 (amended).  \<^verbatim>\<open>deserializer\<close> throws the unknown-tag error only for a carried tag
  that has no entry in the registry.  An input that holds, itself or inside nested arrays
  and object properties, an array \<^verbatim>\<open>['_', '_custom', tag, ...]\<close> whose string tag has no
  entry never decodes: the call does not return.  When the tagged array is the whole
  input and its payload \<open>p\<close> decodes to \<open>p'\<close>, the call throws the unknown-tag error if
  the registry has no entry for the tag, and with an entry it returns what the registered
  hook, bound to its constructor, returns for \<open>p'\<close>; in particular this is so in the
  registry that results from registering a constructor with that tag.
\<close>

theorem custom_tag_registry:
  "(deserializer f en reg d = Inl (UnknownTag t) \<longrightarrow> (\<exists>k. prop_key t = Inr k \<and> reg k = None))
   \<and> (holds_tag tag d \<and> reg tag = None \<longrightarrow> (\<forall>y. deserializer f en reg d \<noteq> Inr y))
   \<and> (deserializer f en reg p = Inr p' \<longrightarrow>
        (reg tag = None \<longrightarrow>
            deserializer f en reg (custom_tagged tag p) = Inl (UnknownTag (VStr tag)))
      \<and> (\<forall>g this. reg tag = Some (VFn g, this) \<longrightarrow>
            deserializer f en reg (custom_tagged tag p) = Inr (call en g this (rd p')))
      \<and> (\<forall>c g reg0. sym_tag en c = VStr tag \<and> sym_deserialize en c = VFn g
            \<and> register en reg0 (VFn c) = Inr reg \<longrightarrow>
            deserializer f en reg (custom_tagged tag p) = Inr (call en g (VFn c) (rd p'))))"
proof (intro conjI impI allI)
  assume "deserializer f en reg d = Inl (UnknownTag t)"
  then show "\<exists>k. prop_key t = Inr k \<and> reg k = None" by (rule unknown_tag_sound(4))
next
  fix y assume "holds_tag tag d \<and> reg tag = None"
  then show "deserializer f en reg d \<noteq> Inr y"
    using holds_tag_no_return [of tag d reg f en y] by blast
next
  assume "deserializer f en reg p = Inr p'" "reg tag = None"
  then show "deserializer f en reg (custom_tagged tag p) = Inl (UnknownTag (VStr tag))"
    by (simp add: custom_tagged_decode)
next
  fix g this assume "deserializer f en reg p = Inr p'" "reg tag = Some (VFn g, this)"
  then show "deserializer f en reg (custom_tagged tag p) = Inr (call en g this (rd p'))"
    by (simp add: custom_tagged_decode)
next
  fix c g reg0
  assume p: "deserializer f en reg p = Inr p'"
    and r: "sym_tag en c = VStr tag \<and> sym_deserialize en c = VFn g
            \<and> register en reg0 (VFn c) = Inr reg"
  then have "reg tag = Some (VFn g, VFn c)" by (auto simp: register_def)
  with p show "deserializer f en reg (custom_tagged tag p) = Inr (call en g (VFn c) (rd p'))"
    by (simp add: custom_tagged_decode)
qed

theorem custom_tag_registry_witness:
  "deserializer 0 env_X Map.empty (custom_tagged ''X'' (VStr ''p'')) = Inl (UnknownTag (VStr ''X''))
   \<and> prop_key (VStr ''X'') = Inr ''X''
   \<and> holds_tag ''X'' (VObj [(''a'', VArr [VNull, custom_tagged ''X'' (VStr ''p'')])])
   \<and> (\<forall>y. deserializer 0 env_X Map.empty
              (VObj [(''a'', VArr [VNull, custom_tagged ''X'' (VStr ''p'')])]) \<noteq> Inr y)
   \<and> register env_X Map.empty (VFn 1) = Inr [''X'' \<mapsto> (VFn 2, VFn 1)]
   \<and> deserializer 0 env_X [''X'' \<mapsto> (VFn 2, VFn 1)] (custom_tagged ''X'' (VStr ''p''))
       = Inr (VCustom 1 [(''__x'', VStr ''11'')])"
proof -
  have a: "deserializer 0 env_X reg (VStr ''p'') = Inr (VStr ''p'')" for reg
    by (simp add: deserializer.simps)
  have r: "register env_X Map.empty (VFn 1) = Inr [''X'' \<mapsto> (VFn 2, VFn 1)]"
    by (simp add: register_def env_X_def)
  have h: "holds_tag ''X'' (VObj [(''a'', VArr [VNull, custom_tagged ''X'' (VStr ''p'')])])"
    by (simp add: custom_tagged_def)
  from custom_tag_registry [of 0 env_X Map.empty
      "VObj [(''a'', VArr [VNull, custom_tagged ''X'' (VStr ''p'')])]" "VStr ''X''" "''X''"
      "VStr ''p''" "VStr ''p''"]
    custom_tag_registry [of 0 env_X "[''X'' \<mapsto> (VFn 2, VFn 1)]" VNull VNull "''X''"
      "VStr ''p''" "VStr ''p''"] a r h
  show ?thesis
    by (simp add: env_X_def)
qed

text \<open>C2 as stated fails: with the tag registered, a payload that does not decode makes the
  call throw.  The payload \<^verbatim>\<open>['_', 'Map', 5]\<close> is revived before the tagged array, and
  \<^verbatim>\<open>new Map(5)\<close> throws a TypeError.\<close>

theorem custom_tag_registry_counterexample:
  "[''X'' \<mapsto> (VFn 2, VFn 1)] ''X'' \<noteq> None
   \<and> deserializer 0 env_X [''X'' \<mapsto> (VFn 2, VFn 1)]
      (custom_tagged ''X'' (VArr [VStr ''_'', VStr ''Map'', VNum (Finite 5)])) = Inl TypeError"
  by (simp add: deserializer.simps custom_tagged_def ref_json_def is_err_tagged_def
      dec_reviver_def)

subsection \<open>The sentinel pair\<close>

lemma de_val_append:
  "de_val T x = Inr (T', jo) \<Longrightarrow> \<exists>N. T' = T @ N"
  "de_list T xs = Inr (T', js) \<Longrightarrow> \<exists>N. T' = T @ N"
  "de_props T ps = Inr (T', qs) \<Longrightarrow> \<exists>N. T' = T @ N"
proof (induction T x and T xs and T ps arbitrary: T' jo and T' js and T' qs
    rule: de_val_de_list_de_props.induct)
  case (1 T xs)
  then show ?case by (auto split: sum.splits prod.splits)
next
  case (2 T ps)
  then show ?case by (auto split: sum.splits prod.splits)
next
  case (18 T x xs)
  from "18.prems" obtain T1 jo js' where
    x: "de_val T x = Inr (T1, jo)" and l: "de_list T1 xs = Inr (T', js')"
    by (auto split: sum.splits prod.splits)
  from "18.IH"(1) [OF x] "18.IH"(2) [OF x refl l] show ?case by auto
next
  case (20 T k v ps)
  from "20.prems" obtain T1 jo qs' where
    x: "de_val T v = Inr (T1, jo)" and l: "de_props T1 ps = Inr (T', qs')"
    by (auto split: sum.splits prod.splits)
  from "20.IH"(1) [OF x] "20.IH"(2) [OF x refl l] show ?case by auto
qed auto

lemma ser_val_append:
  "ser_val f en st x = Inr (st', j) \<Longrightarrow> \<exists>N. verbatim st' = verbatim st @ N"
  "ser_list f en st xs = Inr (st', js) \<Longrightarrow> \<exists>N. verbatim st' = verbatim st @ N"
  "ser_props f en st ps = Inr (st', qs) \<Longrightarrow> \<exists>N. verbatim st' = verbatim st @ N"
  "ser_entries f en st es = Inr (st', js) \<Longrightarrow> \<exists>N. verbatim st' = verbatim st @ N"
  "serializer f en w v = serializer f en w v"
proof (induction f en st x and f en st xs and f en st ps and f en st es and f en w v
    arbitrary: st' j and st' js and st' qs and st' js
    rule: ser_val_ser_list_ser_props_ser_entries_serializer.induct)
  case (12 f en st xs)
  then show ?case by (auto split: sum.splits prod.splits)
next
  case (13 f en st es)
  then show ?case by (auto split: sum.splits prod.splits)
next
  case (14 f en st xs)
  then show ?case by (auto split: sum.splits prod.splits)
next
  case (16 f en st i name cause)
  then show ?case
    by (auto simp: Let_def push_def split: sum.splits prod.splits if_splits)
next
  case (23 f en st c props)
  show ?case
  proof (cases "truthy (sym_tag en c) \<and> truthy (sym_serialize en c)")
    case False
    with 23 show ?thesis by (auto split: sum.splits prod.splits)
  next
    case True
    with "23.prems" obtain g f' st1 jt jp where
      g: "sym_serialize en c = VFn g" and f: "f = Suc f'"
      and t: "ser_val f' en st (sym_tag en c) = Inr (st1, jt)"
      and p: "ser_val f' en st1 (call en g (VFn c) (VCustom c props)) = Inr (st', jp)"
      by (auto split: jsval.splits nat.splits sum.splits prod.splits)
    from "23.IH"(1) [OF True g f t] "23.IH"(2) [OF True g f t refl p]
    show ?thesis by auto
  qed
next
  case (24 f en st props)
  then show ?case by (auto split: sum.splits prod.splits)
next
  case (26 f en st x xs)
  from "26.prems" obtain st1 j js' where
    x: "ser_val f en st x = Inr (st1, j)" and l: "ser_list f en st1 xs = Inr (st', js')"
    by (auto split: sum.splits prod.splits)
  from "26.IH"(1) [OF x] "26.IH"(2) [OF x refl l] show ?case by auto
next
  case (28 f en st k v ps)
  from "28.prems" obtain st1 j js' where
    x: "ser_val f en st v = Inr (st1, j)" and l: "ser_props f en st1 ps = Inr (st', js')"
    by (auto split: sum.splits prod.splits)
  from "28.IH"(1) [OF x] "28.IH"(2) [OF x refl l] show ?case by auto
next
  case (30 f en st k v es)
  from "30.prems" obtain st1 jk st2 jv js' where
    k: "ser_val f en st k = Inr (st1, jk)" and v: "ser_val f en st1 v = Inr (st2, jv)"
    and l: "ser_entries f en st2 es = Inr (st', js')"
    by (auto split: sum.splits prod.splits)
  from "30.IH"(1) [OF k] "30.IH"(2) [OF k refl v] "30.IH"(3) [OF k refl v refl l]
  show ?case by auto
qed (auto simp: push_def Let_def)

lemma enc_revive_tagged:
  assumes "enc_revive T (JArr (JStr ''_'' # JStr k # js)) = Inr d" and "k \<noteq> ''_ref''"
  shows "\<exists>ds. enc_revive_list T js = Inr ds \<and> d = VArr (VStr ''_'' # VStr k # ds)"
  using assms by (auto simp: enc_reviver_tagged split: sum.splits)

lemma ser_list_ConsE:
  assumes "ser_list f en st (x # xs) = Inr (st', js)"
  obtains st1 j js' where "ser_val f en st x = Inr (st1, j)"
    and "ser_list f en st1 xs = Inr (st', js')" and "js = j # js'"
  using assms by (auto split: sum.splits prod.splits)

lemma enc_revive_list_ConsE:
  assumes "enc_revive_list T (j # js) = Inr ds"
  obtains d ds' where "enc_revive T j = Inr d" and "enc_revive_list T js = Inr ds'"
    and "ds = to_slot d # ds'"
  using assms by (auto split: sum.splits)

lemma data_shape:
  "ser_val f en st x = Inr (st', j) \<Longrightarrow> enc_revive (verbatim st' @ rest) j = Inr d \<Longrightarrow>
   d \<noteq> VUndefined \<and> d \<noteq> VEmpty \<and> \<not> is_function d \<and> (\<forall>s. d = VStr s \<longrightarrow> x = VStr s)
   \<and> (\<not> truthy d \<longrightarrow> \<not> truthy x \<or> (\<exists>n. x = VNum n))"
proof (induction x arbitrary: f st st' j rest d)
  case (VArr xs)
  from VArr.prems(1) obtain js where l: "ser_list f en st xs = Inr (st', js)"
    and j: "j = JArr (escape_prefix xs @ js)"
    by (auto split: sum.splits prod.splits)
  from VArr.prems(2) j obtain ds where
    ds: "enc_revive_list (verbatim st' @ rest) js = Inr ds"
    and d: "enc_reviver (verbatim st' @ rest) (VArr (esc_vals xs @ ds)) = Inr d"
    by (auto simp: enc_revive_list_prefix split: sum.splits)
  have h: "elem ds 0 = VStr ''_'' \<longrightarrow> elem xs 0 = VStr ''_''"
  proof (cases xs)
    case Nil
    with l ds show ?thesis by auto
  next
    case (Cons x0 xs')
    from l [unfolded Cons] obtain st1 j0 js' where
      x0: "ser_val f en st x0 = Inr (st1, j0)" and l': "ser_list f en st1 xs' = Inr (st', js')"
      and js: "js = j0 # js'"
      by (rule ser_list_ConsE)
    from ds [unfolded js] obtain d0 ds' where
      d0: "enc_revive (verbatim st' @ rest) j0 = Inr d0" and ds': "ds = to_slot d0 # ds'"
      by (rule enc_revive_list_ConsE)
    from ser_val_append(2) [OF l'] obtain N where N: "verbatim st' = verbatim st1 @ N" ..
    from d0 N have "enc_revive (verbatim st1 @ (N @ rest)) j0 = Inr d0" by simp
    from VArr.IH [OF _ x0 this] Cons have "\<forall>s. d0 = VStr s \<longrightarrow> x0 = VStr s" by simp
    then show ?thesis by (simp add: ds' Cons rd_to_slot)
  qed
  from d enc_reviver_plain [OF h] have "d = VArr (esc_vals xs @ ds)" by simp
  then show ?case by simp
next
  case (VErr i name cause)
  then show ?case
    by (auto simp: Let_def push_def enc_revive_ref enc_reviver_def
        split: if_splits sum.splits prod.splits)
next
  case (VMap es)
  from VMap.prems(1) obtain js where j: "j = JArr [JStr ''_'', JStr ''Map'', JArr js]"
    by (auto split: sum.splits prod.splits)
  from enc_revive_tagged [OF VMap.prems(2) [unfolded j]] show ?case by auto
next
  case (VSet xs)
  from VSet.prems(1) obtain js where j: "j = JArr [JStr ''_'', JStr ''Set'', JArr js]"
    by (auto split: sum.splits prod.splits)
  from enc_revive_tagged [OF VSet.prems(2) [unfolded j]] show ?case by auto
next
  case (VFn g)
  then show ?case
    by (auto simp: Let_def push_def enc_revive_ref enc_reviver_def split: sum.splits)
next
  case (VProxy p)
  then show ?case
    by (auto simp: Let_def push_def enc_revive_ref enc_reviver_def split: sum.splits)
next
  case (VCustom c props)
  show ?case
  proof (cases "truthy (sym_tag en c) \<and> truthy (sym_serialize en c)")
    case False
    with VCustom.prems show ?thesis by (auto split: sum.splits prod.splits)
  next
    case True
    with VCustom.prems(1) obtain jt jp where j: "j = JArr [JStr ''_'', JStr ''_custom'', jt, jp]"
      by (auto split: jsval.splits nat.splits sum.splits prod.splits)
    from enc_revive_tagged [OF VCustom.prems(2) [unfolded j]] show ?thesis by auto
  qed
next
  case (VObj ps)
  then show ?case by (auto split: sum.splits prod.splits)
next
  case (VNum n)
  then show ?case by (cases n) auto
qed (auto simp: push_def enc_revive_ref enc_reviver_def)

lemma de_val_written:
  assumes "d \<noteq> VUndefined" "d \<noteq> VEmpty" "\<not> is_function d" "de_val T d = Inr (T', jo)"
  shows "\<exists>j. jo = Some j"
  using assms by (cases "(T, d)" rule: de_val.cases) (auto split: sum.splits prod.splits)

lemma de_list_ConsE:
  assumes "de_list T (x # xs) = Inr (T', js)"
  obtains T1 jo js' where "de_val T x = Inr (T1, jo)" and "de_list T1 xs = Inr (T', js')"
    and "js = (case jo of None \<Rightarrow> JNull | Some j \<Rightarrow> j) # js'"
  using assms by (auto split: sum.splits prod.splits)

lemma dec_revive_list_ConsE:
  assumes "dec_revive_list g en reg T (j # js) = Inr ys"
  obtains y ys' where "dec_revive g en reg T j = Inr y" and "dec_revive_list g en reg T js = Inr ys'"
    and "ys = to_slot y # ys'"
  using assms by (auto split: sum.splits)

lemma trip_list_Nil: "trip_list en reg [] ys \<Longrightarrow> ys = []"
  by (auto simp: trip_list_def)

lemma trip_list_Cons:
  assumes "trip_list en reg (x # xs) zs"
  shows "\<exists>y ys. zs = to_slot y # ys \<and> trip en reg x y \<and> trip_list en reg xs ys"
proof -
  from assms obtain f g st st' js rest ds T T' js' rest' where
    s: "ser_list f en st (x # xs) = Inr (st', js)"
    and e: "enc_revive_list (verbatim st' @ rest) js = Inr ds"
    and d: "de_list T ds = Inr (T', js')"
    and r: "dec_revive_list g en reg (T' @ rest') js' = Inr zs"
    unfolding trip_list_def by blast
  from s obtain st1 j0 js0 where
    x: "ser_val f en st x = Inr (st1, j0)" and l: "ser_list f en st1 xs = Inr (st', js0)"
    and js: "js = j0 # js0"
    by (rule ser_list_ConsE)
  from e [unfolded js] obtain d0 ds0 where
    d0: "enc_revive (verbatim st' @ rest) j0 = Inr d0"
    and ds0: "enc_revive_list (verbatim st' @ rest) js0 = Inr ds0" and ds: "ds = to_slot d0 # ds0"
    by (rule enc_revive_list_ConsE)
  from ser_val_append(2) [OF l] obtain N where N: "verbatim st' = verbatim st1 @ N" ..
  from d0 N have d0': "enc_revive (verbatim st1 @ (N @ rest)) j0 = Inr d0" by simp
  note sh = data_shape [OF x d0']
  then have ts: "to_slot d0 = d0" by simp
  from d [unfolded ds ts] obtain T1 jo js1 where
    v: "de_val T d0 = Inr (T1, jo)" and dl: "de_list T1 ds0 = Inr (T', js1)"
    and js': "js' = (case jo of None \<Rightarrow> JNull | Some j \<Rightarrow> j) # js1"
    by (rule de_list_ConsE)
  from de_val_written [OF _ _ _ v] sh obtain j1 where jo: "jo = Some j1" by blast
  from r have "dec_revive_list g en reg (T' @ rest') (j1 # js1) = Inr zs"
    by (simp add: js' jo)
  then obtain y ys where
    y: "dec_revive g en reg (T' @ rest') j1 = Inr y"
    and ys: "dec_revive_list g en reg (T' @ rest') js1 = Inr ys" and zs: "zs = to_slot y # ys"
    by (rule dec_revive_list_ConsE)
  from de_val_append(2) [OF dl] obtain M where M: "T' = T1 @ M" ..
  from y M have y': "dec_revive g en reg (T1 @ (M @ rest')) j1 = Inr y" by simp
  have "trip en reg x y"
    unfolding trip_def using x d0' v [unfolded jo] y' by blast
  moreover have "trip_list en reg xs ys"
    unfolding trip_list_def using l ds0 dl ys by blast
  ultimately show ?thesis using zs by blast
qed

lemma trip_list_nth:
  "trip_list en reg xs ys \<Longrightarrow>
   length ys = length xs \<and> (\<forall>i<length xs. \<exists>y. trip en reg (xs ! i) y \<and> ys ! i = to_slot y)"
proof (induction xs arbitrary: ys)
  case Nil
  then show ?case by (simp add: trip_list_Nil)
next
  case (Cons x xs)
  from trip_list_Cons [OF Cons.prems] obtain y ys' where
    ys: "ys = to_slot y # ys'" and x: "trip en reg x y" and l: "trip_list en reg xs ys'"
    by blast
  from Cons.IH [OF l] x show ?case
    by (auto simp: ys nth_Cons split: nat.splits)
qed

lemma ser_list_head:
  assumes l: "ser_list f en st xs = Inr (st', js)"
    and ds: "enc_revive_list (verbatim st' @ rest) js = Inr ds"
  shows "elem ds 0 = VStr s \<longrightarrow> elem xs 0 = VStr s"
proof (cases xs)
  case Nil
  with l ds show ?thesis by auto
next
  case (Cons x0 xs')
  from l [unfolded Cons] obtain st1 j0 js' where
    x0: "ser_val f en st x0 = Inr (st1, j0)" and l': "ser_list f en st1 xs' = Inr (st', js')"
    and js: "js = j0 # js'"
    by (rule ser_list_ConsE)
  from ds [unfolded js] obtain d0 ds' where
    d0: "enc_revive (verbatim st' @ rest) j0 = Inr d0" and ds': "ds = to_slot d0 # ds'"
    by (rule enc_revive_list_ConsE)
  from ser_val_append(2) [OF l'] obtain N where N: "verbatim st' = verbatim st1 @ N" ..
  from d0 N have "enc_revive (verbatim st1 @ (N @ rest)) j0 = Inr d0" by simp
  from data_shape [OF x0 this] show ?thesis by (simp add: ds' Cons rd_to_slot)
qed

lemma ser_val_arr_data:
  assumes s: "ser_val f en st (VArr xs) = Inr (st', j)"
    and e: "enc_revive (verbatim st' @ rest) j = Inr d"
  shows "\<exists>js ds. ser_list f en st xs = Inr (st', js) \<and>
           enc_revive_list (verbatim st' @ rest) js = Inr ds \<and> d = VArr (esc_vals xs @ ds)"
proof -
  from s obtain js where l: "ser_list f en st xs = Inr (st', js)"
    and j: "j = JArr (escape_prefix xs @ js)"
    by (auto split: sum.splits prod.splits)
  from e j obtain ds where
    ds: "enc_revive_list (verbatim st' @ rest) js = Inr ds"
    and d: "enc_reviver (verbatim st' @ rest) (VArr (esc_vals xs @ ds)) = Inr d"
    by (auto simp: enc_revive_list_prefix split: sum.splits)
  from d enc_reviver_plain [OF ser_list_head [OF l ds]] have "d = VArr (esc_vals xs @ ds)" by simp
  with l ds show ?thesis by blast
qed

lemma de_list_prefix:
  "de_list T (esc_vals xs @ ds) =
     (case de_list T ds of Inl e \<Rightarrow> Inl e | Inr (T', js) \<Rightarrow> Inr (T', escape_prefix xs @ js))"
  by (auto simp: esc_vals_def escape_prefix_def split: sum.splits prod.splits)

lemma dec_revive_list_prefix:
  "dec_revive_list g en reg T (escape_prefix xs @ js) =
     (case dec_revive_list g en reg T js of Inl e \<Rightarrow> Inl e | Inr ys \<Rightarrow> Inr (esc_vals xs @ ys))"
  by (auto simp: esc_vals_def escape_prefix_def split: sum.splits)

lemma dec_revive_arr:
  assumes r: "dec_revive g en reg T (JArr (escape_prefix xs @ js)) = Inr y"
    and ys: "dec_revive_list g en reg T js = Inr ys"
    and h: "elem ys 0 = VStr ''_'' \<longrightarrow> elem xs 0 = VStr ''_''" and n: "xs \<noteq> [] \<longrightarrow> ys \<noteq> []"
  shows "y = VArr ys"
proof (cases "elem xs 0 = VStr ''_''")
  case True
  then have "xs \<noteq> []" by auto
  with n obtain y0 ys' where "ys = y0 # ys'" by (cases ys) auto
  with r ys True show ?thesis
    by (simp add: dec_revive_list_prefix esc_vals_def is_err_tagged_def dec_reviver_def)
next
  case False
  with h have "elem ys 0 \<noteq> VStr ''_''" by blast
  with r ys False show ?thesis
    by (simp add: dec_revive_list_prefix esc_vals_def is_err_tagged_def dec_reviver_def)
qed

lemma trip_arr:
  assumes t: "trip en reg (VArr xs) y"
    and h: "\<And>y0. xs \<noteq> [] \<Longrightarrow> trip en reg (hd xs) y0 \<Longrightarrow> y0 = VStr ''_'' \<Longrightarrow> hd xs = VStr ''_''"
  shows "\<exists>ys. y = VArr ys \<and> trip_list en reg xs ys"
proof -
  from t obtain f g st st' j rest d T T' j' rest' where
    s: "ser_val f en st (VArr xs) = Inr (st', j)"
    and e: "enc_revive (verbatim st' @ rest) j = Inr d"
    and d: "de_val T d = Inr (T', Some j')"
    and r: "dec_revive g en reg (T' @ rest') j' = Inr y"
    unfolding trip_def by blast
  from ser_val_arr_data [OF s e] obtain js ds where
    l: "ser_list f en st xs = Inr (st', js)"
    and ds: "enc_revive_list (verbatim st' @ rest) js = Inr ds"
    and dd: "d = VArr (esc_vals xs @ ds)"
    by blast
  from d [unfolded dd] obtain js1 where
    dl: "de_list T ds = Inr (T', js1)" and j': "j' = JArr (escape_prefix xs @ js1)"
    by (auto simp: de_list_prefix split: sum.splits prod.splits)
  from r [unfolded j'] obtain ys where ys: "dec_revive_list g en reg (T' @ rest') js1 = Inr ys"
    by (auto simp: dec_revive_list_prefix split: sum.splits)
  have tl: "trip_list en reg xs ys"
    unfolding trip_list_def using l ds dl ys by blast
  note nth = trip_list_nth [OF tl]
  have hd: "elem ys 0 = VStr ''_'' \<longrightarrow> elem xs 0 = VStr ''_''"
  proof (cases xs)
    case Nil
    with nth show ?thesis by simp
  next
    case (Cons x0 xs')
    with nth obtain y0 where y0: "trip en reg x0 y0" and e0: "ys ! 0 = to_slot y0"
      by auto
    from nth Cons obtain z zs where z: "ys = z # zs" by (cases ys) auto
    show ?thesis
    proof
      assume "elem ys 0 = VStr ''_''"
      with z e0 have "y0 = VStr ''_''" by (simp add: rd_to_slot)
      from h [of y0] Cons y0 this have "x0 = VStr ''_''" by simp
      then show "elem xs 0 = VStr ''_''" by (simp add: Cons)
    qed
  qed
  from nth have n: "xs \<noteq> [] \<longrightarrow> ys \<noteq> []" by auto
  from dec_revive_arr [OF r [unfolded j'] ys hd n] tl show ?thesis by blast
qed

lemma trip_str: "trip en reg (VStr s) y \<Longrightarrow> y = VStr s"
  by (auto simp: trip_def)

lemma trip_prim:
  "trip en reg VUndefined y \<Longrightarrow> y = VUndefined"
  "trip en reg VEmpty y \<Longrightarrow> y = VUndefined"
  "trip en reg VNull y \<Longrightarrow> y = VNull"
  "trip en reg (VBool b) y \<Longrightarrow> y = VBool b"
  "trip en reg (VNum (Finite r)) y \<Longrightarrow> y = VNum (Finite r)"
  "trip en reg (VNum NegZero) y \<Longrightarrow> y = VNum (Finite 0)"
  "trip en reg (VNum NaN) y \<Longrightarrow> y = VNull"
  "trip en reg (VNum PosInf) y \<Longrightarrow> y = VNull"
  "trip en reg (VNum NegInf) y \<Longrightarrow> y = VNull"
  "trip en reg (VBigInt i) y \<Longrightarrow> False"
  by (auto simp: trip_def enc_reviver_def is_err_tagged_def dec_reviver_def)

lemma trip_native:
  "trip en reg (VBlob b) y \<Longrightarrow> y = VBlob b"
  "trip en reg (VPort c e) y \<Longrightarrow> y = VPort c e"
  "trip en reg (VStream s) y \<Longrightarrow> y = VStream s"
  "trip en reg (VBuffer b) y \<Longrightarrow> y = VBuffer b"
  "trip en reg (VView v b) y \<Longrightarrow> y = VView v b"
  by (auto simp: trip_def push_def enc_revive_ref dec_revive_ref)

lemma trip_fn:
  "trip en reg (VFn g) y \<Longrightarrow> \<exists>p. y = VProxy p"
  "trip en reg (VProxy q) y \<Longrightarrow> \<exists>p. y = VProxy p"
  by (auto simp: trip_def Let_def push_def enc_revive_ref dec_revive_ref enc_reviver_def
      is_err_tagged_def dec_reviver_def split: sum.splits)

lemma trip_obj:
  assumes "trip en reg (VObj ps) y"
  shows "\<exists>qs. y = VObj qs \<and> trip_props en reg ps qs"
proof -
  from assms obtain f g st st' j rest d T T' j' rest' where
    s: "ser_val f en st (VObj ps) = Inr (st', j)"
    and e: "enc_revive (verbatim st' @ rest) j = Inr d"
    and d: "de_val T d = Inr (T', Some j')"
    and r: "dec_revive g en reg (T' @ rest') j' = Inr y"
    unfolding trip_def by blast
  from s obtain js where l: "ser_props f en st ps = Inr (st', js)" and j: "j = JObj js"
    by (auto split: sum.splits prod.splits)
  from e j obtain ds where ds: "enc_revive_props (verbatim st' @ rest) js = Inr ds"
    and dd: "d = VObj ds"
    by (auto split: sum.splits)
  from d dd obtain js1 where dl: "de_props T ds = Inr (T', js1)" and j': "j' = JObj js1"
    by (auto split: sum.splits prod.splits)
  from r j' obtain qs where qs: "dec_revive_props g en reg (T' @ rest') js1 = Inr qs"
    and y: "y = VObj qs"
    by (auto split: sum.splits)
  have "trip_props en reg ps qs"
    unfolding trip_props_def using l ds dl qs by blast
  with y show ?thesis by blast
qed

lemma trip_props_Nil: "trip_props en reg [] qs \<Longrightarrow> qs = []"
  by (auto simp: trip_props_def)

lemma trip_props_Cons:
  assumes "trip_props en reg ((k, x) # ps) zs"
  shows "\<exists>y qs. zs = (if y = VUndefined then qs else (k, y) # qs) \<and> trip en reg x y \<and>
           trip_props en reg ps qs"
proof -
  from assms obtain f g st st' js rest ds T T' js' rest' where
    s: "ser_props f en st ((k, x) # ps) = Inr (st', js)"
    and e: "enc_revive_props (verbatim st' @ rest) js = Inr ds"
    and d: "de_props T ds = Inr (T', js')"
    and r: "dec_revive_props g en reg (T' @ rest') js' = Inr zs"
    unfolding trip_props_def by blast
  from s obtain st1 j0 js0 where
    x: "ser_val f en st x = Inr (st1, j0)" and l: "ser_props f en st1 ps = Inr (st', js0)"
    and js: "js = (k, j0) # js0"
    by (auto split: sum.splits prod.splits)
  from e [unfolded js] obtain d0 ds0 where
    d0: "enc_revive (verbatim st' @ rest) j0 = Inr d0"
    and ds0: "enc_revive_props (verbatim st' @ rest) js0 = Inr ds0"
    and ds: "ds = (if d0 = VUndefined then ds0 else (k, d0) # ds0)"
    by (auto split: sum.splits)
  from ser_val_append(3) [OF l] obtain N where N: "verbatim st' = verbatim st1 @ N" ..
  from d0 N have d0': "enc_revive (verbatim st1 @ (N @ rest)) j0 = Inr d0" by simp
  note sh = data_shape [OF x d0']
  with ds have ds': "ds = (k, d0) # ds0" by simp
  from d [unfolded ds'] obtain T1 jo js1 where
    v: "de_val T d0 = Inr (T1, jo)" and dl: "de_props T1 ds0 = Inr (T', js1)"
    and js': "js' = (case jo of None \<Rightarrow> js1 | Some j \<Rightarrow> (k, j) # js1)"
    by (auto split: sum.splits prod.splits)
  from de_val_written [OF _ _ _ v] sh obtain j1 where jo: "jo = Some j1" by blast
  from r have "dec_revive_props g en reg (T' @ rest') ((k, j1) # js1) = Inr zs"
    by (simp add: js' jo)
  then obtain y qs where
    y: "dec_revive g en reg (T' @ rest') j1 = Inr y"
    and qs: "dec_revive_props g en reg (T' @ rest') js1 = Inr qs"
    and zs: "zs = (if y = VUndefined then qs else (k, y) # qs)"
    by (auto split: sum.splits)
  from de_val_append(3) [OF dl] obtain M where M: "T' = T1 @ M" ..
  from y M have y': "dec_revive g en reg (T1 @ (M @ rest')) j1 = Inr y" by simp
  have "trip en reg x y"
    unfolding trip_def using x d0' v [unfolded jo] y' by blast
  moreover have "trip_props en reg ps qs"
    unfolding trip_props_def using l ds0 dl qs by blast
  ultimately show ?thesis using zs by blast
qed

lemma trip_props_map_of:
  "trip_props en reg ps qs \<Longrightarrow> map_of ps k = Some x \<Longrightarrow>
   \<exists>y. trip en reg x y \<and> (y \<noteq> VUndefined \<longrightarrow> map_of qs k = Some y)"
proof (induction ps arbitrary: qs)
  case Nil
  then show ?case by simp
next
  case (Cons p ps)
  obtain k' x' where p: "p = (k', x')" by (cases p)
  from trip_props_Cons [OF Cons.prems(1) [unfolded p]] obtain y qs' where
    qs: "qs = (if y = VUndefined then qs' else (k', y) # qs')"
    and t: "trip en reg x' y" and l: "trip_props en reg ps qs'"
    by blast
  show ?case
  proof (cases "k' = k")
    case True
    with Cons.prems(2) p have "x' = x" by simp
    with t qs True show ?thesis by auto
  next
    case False
    with Cons.prems(2) p have "map_of ps k = Some x" by simp
    from Cons.IH [OF l this] obtain z where
      z: "trip en reg x z" "z \<noteq> VUndefined \<longrightarrow> map_of qs' k = Some z"
      by blast
    with qs False show ?thesis by auto
  qed
qed

lemma ser_entries_pairs:
  "ser_entries f en st es = ser_list f en st (map (\<lambda>(k, v). VArr [k, v]) es)"
proof (induction es arbitrary: st)
  case Nil
  show ?case by simp
next
  case (Cons e es)
  obtain k v where e: "e = (k, v)" by (cases e)
  show ?case
    by (simp add: e Cons.IH split: sum.splits prod.splits)
qed

lemma escape_prefix_pairs: "escape_prefix (map (\<lambda>(k, v). VArr [k, v]) es) = []"
  by (cases es) (auto simp: escape_prefix_def)

lemma de_val_tagged1:
  assumes "de_val T (VArr [VStr ''_'', VStr k, d]) = Inr (T', Some j')"
    and "d \<noteq> VUndefined" "d \<noteq> VEmpty" "\<not> is_function d"
  shows "\<exists>j. de_val T d = Inr (T', Some j) \<and> j' = JArr [JStr ''_'', JStr k, j]"
proof -
  from assms(1) obtain jo where v: "de_val T d = Inr (T', jo)"
    and j': "j' = JArr [JStr ''_'', JStr k, (case jo of None \<Rightarrow> JNull | Some j \<Rightarrow> j)]"
    by (auto split: sum.splits prod.splits)
  from de_val_written [OF assms(2-4) v] obtain j where "jo = Some j" ..
  with v j' show ?thesis by simp
qed

lemma trip_coll:
  assumes s: "ser_val f en st (VArr xs) = Inr (st', jA)"
    and e: "enc_revive (verbatim st' @ rest) (JArr [JStr ''_'', JStr k, jA]) = Inr d"
    and d: "de_val T d = Inr (T', Some j')"
    and r: "dec_revive g en reg (T' @ rest') j' = Inr y"
    and k: "k = ''Map'' \<or> k = ''Set''"
  shows "\<exists>yA. trip en reg (VArr xs) yA \<and>
           dec_reviver en reg (T' @ rest') (VArr [VStr ''_'', VStr k, to_slot yA]) = Inr y"
proof -
  from k have "k \<noteq> ''_ref''" by auto
  from enc_revive_tagged [OF e this] obtain dA where
    dA: "enc_revive (verbatim st' @ rest) jA = Inr dA" and dd: "d = VArr [VStr ''_'', VStr k, to_slot dA]"
    by (auto split: sum.splits)
  note sh = data_shape [OF s dA]
  then have ts: "to_slot dA = dA" by simp
  from de_val_tagged1 [OF d [unfolded dd ts]] sh obtain j1 where
    v: "de_val T dA = Inr (T', Some j1)" and j': "j' = JArr [JStr ''_'', JStr k, j1]"
    by blast
  from r [unfolded j'] obtain yA where yA: "dec_revive g en reg (T' @ rest') j1 = Inr yA"
    by (auto split: sum.splits)
  with r [unfolded j'] k
  have "dec_reviver en reg (T' @ rest') (VArr [VStr ''_'', VStr k, to_slot yA]) = Inr y"
    by (auto simp: is_err_tagged_def)
  moreover have "trip en reg (VArr xs) yA"
    unfolding trip_def using s dA v yA by blast
  ultimately show ?thesis by blast
qed

lemma trip_set:
  assumes "trip en reg (VSet xs) y"
  shows "\<exists>yA. trip en reg (VArr xs) yA \<and> set_ctor (rd yA) = Inr y"
proof -
  from assms obtain f g st st' j rest d T T' j' rest' where
    s: "ser_val f en st (VSet xs) = Inr (st', j)"
    and e: "enc_revive (verbatim st' @ rest) j = Inr d"
    and d: "de_val T d = Inr (T', Some j')"
    and r: "dec_revive g en reg (T' @ rest') j' = Inr y"
    unfolding trip_def by blast
  from s obtain jA where a: "ser_val f en st (VArr xs) = Inr (st', jA)"
    and j: "j = JArr [JStr ''_'', JStr ''Set'', jA]"
    by (auto split: sum.splits prod.splits)
  from trip_coll [OF a e [unfolded j] d r] show ?thesis
    by (auto simp: dec_reviver_def rd_to_slot)
qed

lemma trip_map:
  assumes "trip en reg (VMap es) y"
  shows "\<exists>yA. trip en reg (VArr (map (\<lambda>(k, v). VArr [k, v]) es)) yA \<and> map_ctor (rd yA) = Inr y"
proof -
  from assms obtain f g st st' j rest d T T' j' rest' where
    s: "ser_val f en st (VMap es) = Inr (st', j)"
    and e: "enc_revive (verbatim st' @ rest) j = Inr d"
    and d: "de_val T d = Inr (T', Some j')"
    and r: "dec_revive g en reg (T' @ rest') j' = Inr y"
    unfolding trip_def by blast
  from s obtain jA where
    a: "ser_val f en st (VArr (map (\<lambda>(k, v). VArr [k, v]) es)) = Inr (st', jA)"
    and j: "j = JArr [JStr ''_'', JStr ''Map'', jA]"
    by (auto simp: ser_entries_pairs escape_prefix_pairs split: sum.splits prod.splits)
  from trip_coll [OF a e [unfolded j] d r] show ?thesis
    by (auto simp: dec_reviver_def rd_to_slot)
qed

lemma serializer_InrE:
  assumes "serializer f en w v = Inr (r, w')"
  obtains st j where
    "ser_val f en \<lparr>verbatim = [], transferables = [], revokables = [], wld = w\<rparr> v = Inr (st, j)"
    and "enc_revive (verbatim st) j = Inr (data r)"
  using assms by (auto simp: serializer.simps [of f en w v] split: sum.splits prod.splits)

lemma trip_top:
  assumes s: "serializer f en w v = Inr (r, w')" and d: "deserializer g en reg (data r) = Inr v'"
  shows "trip en reg v v'"
proof -
  from s obtain st j where
    1: "ser_val f en \<lparr>verbatim = [], transferables = [], revokables = [], wld = w\<rparr> v = Inr (st, j)"
    and 2: "enc_revive (verbatim st) j = Inr (data r)"
    by (rule serializer_InrE)
  from d obtain T j' where 3: "de_val [] (data r) = Inr (T, Some j')"
    and 4: "dec_revive g en reg T j' = Inr v'"
    by (rule deserializer_SomeE)
  from 2 have e: "enc_revive (verbatim st @ []) j = Inr (data r)" by simp
  from 4 have c: "dec_revive g en reg (T @ []) j' = Inr v'" by simp
  show ?thesis
    unfolding trip_def using 1 e 3 c by blast
qed

lemma data_truthy:
  assumes s: "serializer f en w v = Inr (r, w')" and t: "truthy v" and n: "\<forall>m. v \<noteq> VNum m"
  shows "truthy (data r)"
proof -
  from s obtain st j where
    1: "ser_val f en \<lparr>verbatim = [], transferables = [], revokables = [], wld = w\<rparr> v = Inr (st, j)"
    and 2: "enc_revive (verbatim st) j = Inr (data r)"
    by (rule serializer_InrE)
  from 2 have e: "enc_revive (verbatim st @ []) j = Inr (data r)" by simp
  from data_shape [OF 1 e] t n show ?thesis by blast
qed

lemma trip_err:
  assumes "trip en reg (VErr i n c) y"
  shows "\<exists>c'. y = VErr i n c' \<and> (truthy c \<and> (\<forall>m. c \<noteq> VNum m) \<longrightarrow> trip en reg c c')"
proof -
  from assms obtain f g st st' j rest d T T' j' rest' where
    s: "ser_val f en st (VErr i n c) = Inr (st', j)"
    and e: "enc_revive (verbatim st' @ rest) j = Inr d"
    and d: "de_val T d = Inr (T', Some j')"
    and r: "dec_revive g en reg (T' @ rest') j' = Inr y"
    unfolding trip_def by blast
  have "\<exists>c0. verbatim st' = verbatim st @ [VErr i n c0] \<and>
          j = JArr [JStr ''_'', JStr ''_err'', ref_json (length (verbatim st)), JStr n] \<and>
          (if truthy c then (\<exists>r w'. serializer f en (wld st) c = Inr (r, w') \<and> c0 = data r)
           else c0 = c)"
  proof (cases "truthy c")
    case True
    with s obtain r w' where "serializer f en (wld st) c = Inr (r, w')"
      and "verbatim st' = verbatim st @ [VErr i n (data r)]"
      and "j = JArr [JStr ''_'', JStr ''_err'', ref_json (length (verbatim st)), JStr n]"
      by (auto simp: Let_def push_def split: sum.splits prod.splits)
    with True show ?thesis by auto
  next
    case False
    with s show ?thesis by (auto simp: Let_def push_def)
  qed
  then obtain c0 where
    v: "verbatim st' = verbatim st @ [VErr i n c0]"
    and j: "j = JArr [JStr ''_'', JStr ''_err'', ref_json (length (verbatim st)), JStr n]"
    and c0: "if truthy c then (\<exists>r w'. serializer f en (wld st) c = Inr (r, w') \<and> c0 = data r)
             else c0 = c"
    by blast
  from e have dd: "d = VArr [VStr ''_'', VStr ''_err'', VErr i n c0, VStr n]"
    by (simp add: j v enc_revive_ref enc_reviver_def)
  from d have T': "T' = T @ [VErr i n c0]"
    and j': "j' = JArr [JStr ''_'', JStr ''_err'', ref_json (length T), JStr n]"
    by (simp_all add: dd)
  from r have y: "(if truthy c0 then
       (case g of 0 \<Rightarrow> Inl OutOfFuel
        | Suc g' \<Rightarrow> (case deserializer g' en reg c0 of Inl e \<Rightarrow> Inl e | Inr c' \<Rightarrow> Inr (VErr i n c')))
     else Inr (VErr i n c0)) = Inr y"
    by (simp add: j' T' dec_revive_ref is_err_tagged_def)
  show ?thesis
  proof (cases "truthy c \<and> (\<forall>m. c \<noteq> VNum m)")
    case False
    with y show ?thesis by (auto split: if_splits nat.splits sum.splits)
  next
    case True
    with c0 obtain r w' where sr: "serializer f en (wld st) c = Inr (r, w')" and c0': "c0 = data r"
      by auto
    from data_truthy [OF sr] True have "truthy c0" by (simp add: c0')
    with y obtain g' c' where "deserializer g' en reg c0 = Inr c'" and y': "y = VErr i n c'"
      by (auto split: nat.splits sum.splits)
    with trip_top [OF sr] c0' have "trip en reg c c'" by simp
    with y' show ?thesis by blast
  qed
qed

lemma trip_custom:
  assumes "trip en reg (VCustom c ps) y"
  shows "(\<exists>qs. y = VObj qs) \<or> (\<exists>t h a. reg t = Some h \<and> call_bound en h a = Inr y)"
proof -
  from assms obtain f g st st' j rest d T T' j' rest' where
    s: "ser_val f en st (VCustom c ps) = Inr (st', j)"
    and e: "enc_revive (verbatim st' @ rest) j = Inr d"
    and d: "de_val T d = Inr (T', Some j')"
    and r: "dec_revive g en reg (T' @ rest') j' = Inr y"
    unfolding trip_def by blast
  show ?thesis
  proof (cases "truthy (sym_tag en c) \<and> truthy (sym_serialize en c)")
    case False
    with s obtain js where j: "j = JObj js"
      by (auto split: sum.splits prod.splits)
    from e j obtain ds where dd: "d = VObj ds"
      by (auto split: sum.splits)
    from d dd obtain js1 where j': "j' = JObj js1"
      by (auto split: sum.splits prod.splits)
    from r j' show ?thesis
      by (auto split: sum.splits)
  next
    case True
    with s obtain jt jp where j: "j = JArr [JStr ''_'', JStr ''_custom'', jt, jp]"
      by (auto split: jsval.splits nat.splits sum.splits prod.splits)
    have "''_custom'' \<noteq> ''_ref''" by simp
    from enc_revive_tagged [OF e [unfolded j] this] obtain a1 a2 where
      dd: "d = VArr [VStr ''_'', VStr ''_custom'', a1, a2]"
      by (auto split: sum.splits)
    from d [unfolded dd] obtain j1 j2 where
      j': "j' = JArr [JStr ''_'', JStr ''_custom'', j1, j2]"
      by (auto split: sum.splits prod.splits)
    from r [unfolded j'] obtain b1 b2 where
      "dec_reviver en reg (T' @ rest') (VArr [VStr ''_'', VStr ''_custom'', b1, b2]) = Inr y"
      by (auto simp: is_err_tagged_def split: sum.splits)
    then show ?thesis
      by (auto simp: dec_reviver_def split: sum.splits option.splits)
  qed
qed

lemma map_ctor_kind: "map_ctor x = Inr y \<Longrightarrow> \<exists>m. y = VMap m"
  by (cases x rule: map_ctor.cases) (auto split: sum.splits if_splits)

lemma set_ctor_kind: "set_ctor x = Inr y \<Longrightarrow> \<exists>m. y = VSet m"
  by (cases x rule: set_ctor.cases) (auto split: sum.splits if_splits)

lemma trip_sentinel:
  "trip en reg x y \<Longrightarrow> hooks_plain en reg \<Longrightarrow> y = VStr ''_'' \<Longrightarrow> x = VStr ''_''"
proof (induction x arbitrary: y)
  case (VArr xs)
  have "\<exists>ys. y = VArr ys \<and> trip_list en reg xs ys"
  proof (rule trip_arr [OF VArr.prems(1)])
    fix y0
    assume "xs \<noteq> []" "trip en reg (hd xs) y0" "y0 = VStr ''_''"
    then show "hd xs = VStr ''_''"
      using VArr.IH [of "hd xs" y0] VArr.prems(2) by simp
  qed
  with VArr.prems(3) show ?case by auto
next
  case (VNum n)
  then show ?case by (cases n) (auto dest: trip_prim)
next
  case (VObj ps)
  from trip_obj [OF VObj.prems(1)] VObj.prems(3) show ?case by auto
next
  case (VMap es)
  from trip_map [OF VMap.prems(1)] VMap.prems(3) show ?case by (auto dest: map_ctor_kind)
next
  case (VSet xs)
  from trip_set [OF VSet.prems(1)] VSet.prems(3) show ?case by (auto dest: set_ctor_kind)
next
  case (VErr i n c)
  from trip_err [OF VErr.prems(1)] VErr.prems(3) show ?case by auto
next
  case (VCustom c ps)
  from trip_custom [OF VCustom.prems(1)] VCustom.prems(2,3) show ?case
    by (auto simp: hooks_plain_def)
qed (auto dest: trip_prim trip_native trip_fn trip_str)

lemma trip_arr_plain:
  assumes "trip en reg (VArr xs) y" and "hooks_plain en reg"
  shows "\<exists>ys. y = VArr ys \<and> trip_list en reg xs ys"
  using assms(1)
proof (rule trip_arr)
  fix y0
  assume "trip en reg (hd xs) y0" "y0 = VStr ''_''"
  then show "hd xs = VStr ''_''"
    using trip_sentinel [OF _ assms(2)] by blast
qed

lemma trip_key_img:
  assumes t: "trip en reg k y" and h: "hooks_plain en reg" and s: "key_stable k"
  shows "key_img k y"
proof (cases k)
  case (VNum n)
  with s obtain r where "n = Finite r" by (cases n) auto
  with t VNum show ?thesis by (auto dest: trip_prim simp: key_img_def)
next
  case (VArr xs)
  with trip_arr_plain [OF _ h, of xs y] t show ?thesis by (auto simp: key_img_def)
next
  case (VObj ps)
  with trip_obj [of en reg ps y] t show ?thesis by (auto simp: key_img_def)
next
  case (VMap es)
  with trip_map [of en reg es y] t show ?thesis by (auto dest: map_ctor_kind simp: key_img_def)
next
  case (VSet xs)
  with trip_set [of en reg xs y] t show ?thesis by (auto dest: set_ctor_kind simp: key_img_def)
next
  case (VErr i n c)
  with trip_err [of en reg i n c y] t show ?thesis by (auto simp: key_img_def)
qed (use t s in \<open>auto dest: trip_prim trip_native trip_fn trip_str simp: key_img_def\<close>)

lemma key_img_svz:
  "key_img k1 y1 \<Longrightarrow> key_img k2 y2 \<Longrightarrow> \<not> svz k1 k2 \<Longrightarrow> \<not> svz y1 y2"
  by (auto simp: key_img_def svz_def)

lemma keys_distinct_img:
  "list_all2 key_img ks ys \<Longrightarrow> keys_distinct ks \<Longrightarrow> keys_distinct ys"
proof (induction rule: list_all2_induct)
  case Nil
  show ?case by simp
next
  case (Cons k ks y ys)
  have "\<not> svz y y'" if "y' \<in> set ys" for y'
  proof -
    from that obtain i where "i < length ys" "y' = ys ! i"
      by (auto simp: in_set_conv_nth)
    with Cons.hyps(2) have "ks ! i \<in> set ks" "key_img (ks ! i) y'"
      by (auto simp: list_all2_conv_all_nth)
    then obtain k' where "k' \<in> set ks" and i: "key_img k' y'"
      by blast
    with Cons.prems have "\<not> svz k k'" by (auto simp: list_ex_iff)
    from key_img_svz [OF Cons.hyps(1) i this] show ?thesis .
  qed
  with Cons show ?case by (auto simp: list_ex_iff)
qed

lemma trip_list_all2:
  "trip_list en reg xs zs \<Longrightarrow> \<exists>ys. zs = map to_slot ys \<and> list_all2 (trip en reg) xs ys"
proof (induction xs arbitrary: zs)
  case Nil
  then show ?case by (simp add: trip_list_Nil)
next
  case (Cons x xs)
  from trip_list_Cons [OF Cons.prems] obtain y zs' where
    zs: "zs = to_slot y # zs'" and x: "trip en reg x y" and l: "trip_list en reg xs zs'"
    by blast
  from Cons.IH [OF l] obtain ys where "zs' = map to_slot ys" "list_all2 (trip en reg) xs ys"
    by blast
  with zs x have "zs = map to_slot (y # ys) \<and> list_all2 (trip en reg) (x # xs) (y # ys)"
    by simp
  then show ?case by blast
qed

lemma trip_set_members:
  assumes t: "trip en reg (VSet xs) y" and h: "hooks_plain en reg" and k: "keys_stable xs"
  shows "\<exists>ys. y = VSet ys \<and> list_all2 (trip en reg) xs ys"
proof -
  from trip_set [OF t] obtain yA where a: "trip en reg (VArr xs) yA"
    and c: "set_ctor (rd yA) = Inr y"
    by blast
  from trip_arr_plain [OF a h] obtain zs where yA: "yA = VArr zs" and l: "trip_list en reg xs zs"
    by blast
  from trip_list_all2 [OF l] obtain ys where zs: "zs = map to_slot ys"
    and ys: "list_all2 (trip en reg) xs ys"
    by blast
  from k have st: "list_all key_stable xs" and kd: "keys_distinct xs"
    by (simp_all add: keys_stable_def)
  have img: "list_all2 key_img xs ys"
    using ys st trip_key_img [OF _ h]
    by (auto simp: list_all2_conv_all_nth list_all_length)
  have d: "keys_distinct ys"
    by (rule keys_distinct_img [OF img kd])
  have n: "\<forall>x\<in>set ys. x \<noteq> VEmpty \<and> key_norm x = x"
    using img by (auto simp: list_all2_conv_all_nth in_set_conv_nth key_img_def)
  have "foldl set_ins [] (map to_slot ys) = [] @ ys"
    by (rule foldl_set_ins [OF d n]) simp
  with c yA zs have "y = VSet ys" by simp
  with ys show ?thesis by blast
qed

lemma to_slot_rd: "to_slot (rd x) = to_slot x"
  by (cases x) simp_all

lemma rd_not_empty: "rd x \<noteq> VEmpty"
  by (cases x) simp_all

lemma trip_pair:
  assumes t: "trip en reg (VArr [k, v]) p" and h: "hooks_plain en reg"
  shows "\<exists>yk yv. p = VArr [to_slot yk, to_slot yv] \<and> trip en reg k yk \<and> trip en reg v yv"
proof -
  from trip_arr_plain [OF t h] obtain ws where p: "p = VArr ws" and l: "trip_list en reg [k, v] ws"
    by blast
  from trip_list_Cons [OF l] obtain yk ws' where
    1: "ws = to_slot yk # ws'" "trip en reg k yk" "trip_list en reg [v] ws'"
    by blast
  from trip_list_Cons [OF 1(3)] obtain yv ws'' where
    2: "ws' = to_slot yv # ws''" "trip en reg v yv" "trip_list en reg [] ws''"
    by blast
  from trip_list_Nil [OF 2(3)] p 1 2 show ?thesis by blast
qed

lemma trip_pairs:
  assumes h: "hooks_plain en reg"
  shows "list_all2 (trip en reg) (map (\<lambda>(k, v). VArr [k, v]) es) ps \<Longrightarrow>
    \<exists>m. map to_slot ps = map (\<lambda>(k, v). VArr [to_slot k, to_slot v]) m \<and>
      list_all2 (\<lambda>e e'. trip en reg (fst e) (fst e') \<and>
                  (\<exists>yv. trip en reg (snd e) yv \<and> snd e' = rd yv)) es m"
proof (induction es arbitrary: ps)
  case Nil
  then show ?case by simp
next
  case (Cons e es)
  obtain k v where e: "e = (k, v)" by (cases e)
  from Cons.prems e obtain p ps' where ps: "ps = p # ps'"
    and p: "trip en reg (VArr [k, v]) p"
    and l: "list_all2 (trip en reg) (map (\<lambda>(k, v). VArr [k, v]) es) ps'"
    by (cases ps) auto
  from trip_pair [OF p h] obtain yk yv where
    pp: "p = VArr [to_slot yk, to_slot yv]" and k: "trip en reg k yk" and v: "trip en reg v yv"
    by blast
  from Cons.IH [OF l] obtain m where
    m: "map to_slot ps' = map (\<lambda>(k, v). VArr [to_slot k, to_slot v]) m"
    and a: "list_all2 (\<lambda>e e'. trip en reg (fst e) (fst e') \<and>
                  (\<exists>yv. trip en reg (snd e) yv \<and> snd e' = rd yv)) es m"
    by blast
  have "map to_slot ps = map (\<lambda>(k, v). VArr [to_slot k, to_slot v]) ((yk, rd yv) # m)"
    by (simp add: ps pp m to_slot_rd)
  moreover have "list_all2 (\<lambda>e e'. trip en reg (fst e) (fst e') \<and>
                  (\<exists>yv. trip en reg (snd e) yv \<and> snd e' = rd yv)) (e # es) ((yk, rd yv) # m)"
    using a k v by (auto simp: e)
  ultimately show ?case by blast
qed

lemma trip_map_entries:
  assumes t: "trip en reg (VMap es) y" and h: "hooks_plain en reg"
    and k: "keys_stable (map fst es)"
  shows "\<exists>m. y = VMap m \<and>
    list_all2 (\<lambda>e e'. trip en reg (fst e) (fst e') \<and>
                  (\<exists>yv. trip en reg (snd e) yv \<and> snd e' = rd yv)) es m"
proof -
  from trip_map [OF t] obtain yA where
    a: "trip en reg (VArr (map (\<lambda>(k, v). VArr [k, v]) es)) yA" and c: "map_ctor (rd yA) = Inr y"
    by blast
  from trip_arr_plain [OF a h] obtain zs where yA: "yA = VArr zs"
    and l: "trip_list en reg (map (\<lambda>(k, v). VArr [k, v]) es) zs"
    by blast
  from trip_list_all2 [OF l] obtain ps where zs: "zs = map to_slot ps"
    and ps: "list_all2 (trip en reg) (map (\<lambda>(k, v). VArr [k, v]) es) ps"
    by blast
  from trip_pairs [OF h ps] obtain m where
    m: "map to_slot ps = map (\<lambda>(k, v). VArr [to_slot k, to_slot v]) m"
    and a2: "list_all2 (\<lambda>e e'. trip en reg (fst e) (fst e') \<and>
                  (\<exists>yv. trip en reg (snd e) yv \<and> snd e' = rd yv)) es m"
    by blast
  from k have st: "list_all key_stable (map fst es)" and kd: "keys_distinct (map fst es)"
    by (simp_all add: keys_stable_def)
  have img: "list_all2 key_img (map fst es) (map fst m)"
    using a2 st trip_key_img [OF _ h]
    by (auto simp: list_all2_conv_all_nth list_all_length)
  have d: "keys_distinct (map fst m)"
    by (rule keys_distinct_img [OF img kd])
  have n: "\<forall>e\<in>set m. fst e \<noteq> VEmpty \<and> key_norm (fst e) = fst e \<and> snd e \<noteq> VEmpty"
  proof
    fix e' assume "e' \<in> set m"
    then obtain i where i: "i < length m" "e' = m ! i" by (auto simp: in_set_conv_nth)
    with img have "key_img (fst (es ! i)) (fst e')"
      by (auto simp: list_all2_conv_all_nth)
    moreover from i a2 have "\<exists>yv. snd e' = rd yv"
      by (auto simp: list_all2_conv_all_nth)
    ultimately show "fst e' \<noteq> VEmpty \<and> key_norm (fst e') = fst e' \<and> snd e' \<noteq> VEmpty"
      using rd_not_empty by (auto simp: key_img_def) metis+
  qed
  have "map_fill [] (map (\<lambda>(k, v). VArr [to_slot k, to_slot v]) m) = Inr ([] @ m)"
    by (rule map_fill_entries [OF d n]) simp
  with c yA zs m have "y = VMap m" by simp
  with a2 show ?thesis by blast
qed

lemma at_path_lit:
  assumes "at_path x p = Some (VArr [VStr ''_'', VStr ''_''])"
  shows "x \<noteq> VUndefined \<and> x \<noteq> VEmpty \<and> truthy x \<and> (\<forall>m. x \<noteq> VNum m)"
  using assms by (cases "(x, p)" rule: at_path.cases) auto

lemma path_kept:
  "trip en reg v v' \<Longrightarrow> hooks_plain en reg \<Longrightarrow> stable_path v p \<Longrightarrow>
   at_path v p = Some (VArr [VStr ''_'', VStr ''_'']) \<Longrightarrow>
   at_path v' p = Some (VArr [VStr ''_'', VStr ''_''])"
proof (induction v p arbitrary: v' rule: at_path.induct)
  case (1 v)
  then have t: "trip en reg (VArr [VStr ''_'', VStr ''_'']) v'" by simp
  from trip_pair [OF t "1.prems"(2)] show ?case
    by (auto dest: trip_str)
next
  case (2 xs i p)
  from "2.prems"(3,4) have i: "i < length xs" and s: "stable_path (xs ! i) p"
    and a: "at_path (xs ! i) p = Some (VArr [VStr ''_'', VStr ''_''])"
    by (simp_all split: if_splits)
  from trip_arr_plain [OF "2.prems"(1,2)] obtain ys where
    v': "v' = VArr ys" and l: "trip_list en reg xs ys"
    by blast
  from trip_list_nth [OF l] i obtain y where
    len: "length ys = length xs" and y: "trip en reg (xs ! i) y" and yi: "ys ! i = to_slot y"
    by blast
  from "2.IH" [OF i y "2.prems"(2) s a]
  have ay: "at_path y p = Some (VArr [VStr ''_'', VStr ''_''])" .
  from at_path_lit [OF ay] have "to_slot y = y" by simp
  with ay yi len i show ?case by (simp add: v')
next
  case (3 ps k p)
  from "3.prems"(3,4) obtain x where x: "map_of ps k = Some x" and s: "stable_path x p"
    and a: "at_path x p = Some (VArr [VStr ''_'', VStr ''_''])"
    by (auto split: option.splits)
  from trip_obj [OF "3.prems"(1)] obtain qs where v': "v' = VObj qs"
    and l: "trip_props en reg ps qs"
    by blast
  from trip_props_map_of [OF l x] obtain y where y: "trip en reg x y"
    and q: "y \<noteq> VUndefined \<longrightarrow> map_of qs k = Some y"
    by blast
  from "3.IH" [OF x y "3.prems"(2) s a]
  have ay: "at_path y p = Some (VArr [VStr ''_'', VStr ''_''])" .
  from at_path_lit [OF ay] q have "map_of qs k = Some y" by simp
  with ay show ?case by (simp add: v')
next
  case (4 es i p)
  from "4.prems"(3,4) have i: "i < length es" and k: "keys_stable (map fst es)"
    and s: "stable_path (fst (es ! i)) p"
    and a: "at_path (fst (es ! i)) p = Some (VArr [VStr ''_'', VStr ''_''])"
    by (simp_all split: if_splits)
  from trip_map_entries [OF "4.prems"(1,2) k] obtain m where v': "v' = VMap m"
    and l: "list_all2 (\<lambda>e e'. trip en reg (fst e) (fst e') \<and>
                  (\<exists>yv. trip en reg (snd e) yv \<and> snd e' = rd yv)) es m"
    by blast
  from l i have len: "length m = length es" and y: "trip en reg (fst (es ! i)) (fst (m ! i))"
    by (auto simp: list_all2_conv_all_nth)
  from "4.IH" [OF i y "4.prems"(2) s a] len i show ?case by (simp add: v')
next
  case (5 es i p)
  from "5.prems"(3,4) have i: "i < length es" and k: "keys_stable (map fst es)"
    and s: "stable_path (snd (es ! i)) p"
    and a: "at_path (snd (es ! i)) p = Some (VArr [VStr ''_'', VStr ''_''])"
    by (simp_all split: if_splits)
  from trip_map_entries [OF "5.prems"(1,2) k] obtain m where v': "v' = VMap m"
    and l: "list_all2 (\<lambda>e e'. trip en reg (fst e) (fst e') \<and>
                  (\<exists>yv. trip en reg (snd e) yv \<and> snd e' = rd yv)) es m"
    by blast
  from l i obtain yv where len: "length m = length es" and y: "trip en reg (snd (es ! i)) yv"
    and r: "snd (m ! i) = rd yv"
    by (auto simp: list_all2_conv_all_nth)
  from "5.IH" [OF i y "5.prems"(2) s a]
  have ay: "at_path yv p = Some (VArr [VStr ''_'', VStr ''_''])" .
  from at_path_lit [OF ay] have "rd yv = yv" by (simp add: rd_id)
  with ay r len i show ?case by (simp add: v')
next
  case (6 xs i p)
  from "6.prems"(3,4) have i: "i < length xs" and k: "keys_stable xs"
    and s: "stable_path (xs ! i) p"
    and a: "at_path (xs ! i) p = Some (VArr [VStr ''_'', VStr ''_''])"
    by (simp_all split: if_splits)
  from trip_set_members [OF "6.prems"(1,2) k] obtain ys where v': "v' = VSet ys"
    and l: "list_all2 (trip en reg) xs ys"
    by blast
  from l i have len: "length ys = length xs" and y: "trip en reg (xs ! i) (ys ! i)"
    by (auto simp: list_all2_conv_all_nth)
  from "6.IH" [OF i y "6.prems"(2) s a] len i show ?case by (simp add: v')
next
  case (7 i name cause p)
  from "7.prems"(3,4) have s: "stable_path cause p"
    and a: "at_path cause p = Some (VArr [VStr ''_'', VStr ''_''])"
    by simp_all
  from trip_err [OF "7.prems"(1)] at_path_lit [OF a] obtain c' where v': "v' = VErr i name c'"
    and y: "trip en reg cause c'"
    by blast
  from "7.IH" [OF y "7.prems"(2) s a] show ?case by (simp add: v')
qed simp_all

lemma position_kept:
  assumes "serializer fe en w v = Inr (r, w')" and "deserializer fd en reg (data r) = Inr v'"
    and "hooks_plain en reg" and "stable_path v p"
    and "at_path v p = Some (VArr [VStr ''_'', VStr ''_''])"
  shows "at_path v' p = Some (VArr [VStr ''_'', VStr ''_''])"
  by (rule path_kept [OF trip_top [OF assms(1,2)] assms(3-5)])

text \<open>
  C5 (amended).  The array \<^verbatim>\<open>['_', '_']\<close> is encoded as \<^verbatim>\<open>['_', '_', '_', '_']\<close>; that
  array of length four decodes to \<^verbatim>\<open>['_', '_']\<close>, the two sentinel slots dropped, while
  the bare \<^verbatim>\<open>['_', '_']\<close> decodes to \<open>undefined\<close>.  Whenever \<^verbatim>\<open>serializer\<close> returns for
  a value that holds \<^verbatim>\<open>['_', '_']\<close> at a position and \<^verbatim>\<open>deserializer\<close> returns for its
  data, the decoded value holds that array at the same position, provided that the Error
  objects of the value are pairwise different, that every Map and Set on the way to the
  position has stable keys, and that no registered reconstruct hook returns the sentinel
  string.  Both calls return for every value covered by \<open>rt_ok\<close>.
\<close>

theorem sentinel_pair_roundtrip:
  "serializer fe en w (VArr [VStr ''_'', VStr ''_'']) =
     Inr (\<lparr>data = VArr [VStr ''_'', VStr ''_'', VStr ''_'', VStr ''_''],
           res_transferables = [], res_revokables = []\<rparr>, w)
   \<and> deserializer fd en reg (VArr [VStr ''_'', VStr ''_'', VStr ''_'', VStr ''_''])
       = Inr (VArr [VStr ''_'', VStr ''_''])
   \<and> deserializer fd en reg (VArr [VStr ''_'', VStr ''_'']) = Inr VUndefined
   \<and> (serializer fe en w v = Inr (r, w') \<and> deserializer fd en reg (data r) = Inr v'
        \<and> distinct (err_ids fe en v) \<and> hooks_plain en reg \<and> stable_path v p
        \<and> at_path v p = Some (VArr [VStr ''_'', VStr ''_'']) \<longrightarrow>
        at_path v' p = Some (VArr [VStr ''_'', VStr ''_'']))
   \<and> (rt_ok fe fd en reg v \<and> distinct (err_ids fe en v) \<longrightarrow>
        (\<exists>r w' v'. serializer fe en w v = Inr (r, w')
           \<and> deserializer fd en reg (data r) = Inr v'))"
proof (intro conjI impI)
  show "serializer fe en w (VArr [VStr ''_'', VStr ''_'']) =
     Inr (\<lparr>data = VArr [VStr ''_'', VStr ''_'', VStr ''_'', VStr ''_''],
           res_transferables = [], res_revokables = []\<rparr>, w)"
    by (simp add: serializer.simps escape_prefix_def enc_reviver_def)
  show "deserializer fd en reg (VArr [VStr ''_'', VStr ''_'', VStr ''_'', VStr ''_''])
       = Inr (VArr [VStr ''_'', VStr ''_''])"
    by (simp add: deserializer.simps dec_reviver_def is_err_tagged_def)
  show "deserializer fd en reg (VArr [VStr ''_'', VStr ''_'']) = Inr VUndefined"
    by (simp add: deserializer.simps dec_reviver_def is_err_tagged_def)
next
  assume "serializer fe en w v = Inr (r, w') \<and> deserializer fd en reg (data r) = Inr v'
        \<and> distinct (err_ids fe en v) \<and> hooks_plain en reg \<and> stable_path v p
        \<and> at_path v p = Some (VArr [VStr ''_'', VStr ''_''])"
  then show "at_path v' p = Some (VArr [VStr ''_'', VStr ''_''])"
    using position_kept [of fe en w v r w' fd reg v' p] by blast
next
  assume "rt_ok fe fd en reg v \<and> distinct (err_ids fe en v)"
  with roundtrip_enc [of fe fd en reg v w]
  show "\<exists>r w' v'. serializer fe en w v = Inr (r, w') \<and> deserializer fd en reg (data r) = Inr v'"
    by blast
qed

lemma rt_ok_test_source: "rt_ok 0 0 env_none Map.empty test_source"
  by (simp add: test_source_def svz_def)

theorem sentinel_pair_roundtrip_witness:
  "serializer 0 env_none world0 pair_source =
     Inr (\<lparr>data = VObj [(''a'', VArr [VStr ''_'', VStr ''_'']),
             (''b'', VArr [VStr ''_'', VStr ''Set'', VArr [VNull,
                VArr [VStr ''_'', VStr ''Map'', VArr [VArr [VStr ''k'',
                  VArr [VStr ''_'', VStr ''_'', VStr ''_'', VStr ''_'']]]]]])],
           res_transferables = [], res_revokables = []\<rparr>, world0)
   \<and> deserializer 0 env_none Map.empty
       (VObj [(''a'', VArr [VStr ''_'', VStr ''_'']),
             (''b'', VArr [VStr ''_'', VStr ''Set'', VArr [VNull,
                VArr [VStr ''_'', VStr ''Map'', VArr [VArr [VStr ''k'',
                  VArr [VStr ''_'', VStr ''_'', VStr ''_'', VStr ''_'']]]]]])])
       = Inr (VObj [(''b'', VSet [VNull, VMap [(VStr ''k'', VArr [VStr ''_'', VStr ''_''])]])])
   \<and> distinct (err_ids 0 env_none pair_source) \<and> hooks_plain env_none Map.empty
   \<and> stable_path pair_source [Key ''b'', Member 1, MapValue 0]
   \<and> at_path pair_source [Key ''b'', Member 1, MapValue 0] = Some (VArr [VStr ''_'', VStr ''_''])
   \<and> at_path (VObj [(''b'', VSet [VNull, VMap [(VStr ''k'', VArr [VStr ''_'', VStr ''_''])]])])
        [Key ''b'', Member 1, MapValue 0] = Some (VArr [VStr ''_'', VStr ''_''])
   \<and> (\<exists>r w' v'. serializer 0 env_none world0 test_source = Inr (r, w')
         \<and> deserializer 0 env_none Map.empty (data r) = Inr v')"
proof -
  have s: "serializer 0 env_none world0 pair_source =
     Inr (\<lparr>data = VObj [(''a'', VArr [VStr ''_'', VStr ''_'']),
             (''b'', VArr [VStr ''_'', VStr ''Set'', VArr [VNull,
                VArr [VStr ''_'', VStr ''Map'', VArr [VArr [VStr ''k'',
                  VArr [VStr ''_'', VStr ''_'', VStr ''_'', VStr ''_'']]]]]])],
           res_transferables = [], res_revokables = []\<rparr>, world0)"
    by (simp add: serializer.simps pair_source_def escape_prefix_def enc_reviver_def)
  have d: "deserializer 0 env_none Map.empty
       (VObj [(''a'', VArr [VStr ''_'', VStr ''_'']),
             (''b'', VArr [VStr ''_'', VStr ''Set'', VArr [VNull,
                VArr [VStr ''_'', VStr ''Map'', VArr [VArr [VStr ''k'',
                  VArr [VStr ''_'', VStr ''_'', VStr ''_'', VStr ''_'']]]]]])])
       = Inr (VObj [(''b'', VSet [VNull, VMap [(VStr ''k'', VArr [VStr ''_'', VStr ''_''])]])])"
    by (simp add: deserializer.simps dec_reviver_def is_err_tagged_def set_ins_def svz_def)
  have t: "distinct (err_ids 0 env_none test_source)"
    by (simp add: test_source_def)
  have h: "distinct (err_ids 0 env_none pair_source)" "hooks_plain env_none Map.empty"
    "stable_path pair_source [Key ''b'', Member 1, MapValue 0]"
    "at_path pair_source [Key ''b'', Member 1, MapValue 0] = Some (VArr [VStr ''_'', VStr ''_''])"
    by (simp_all add: pair_source_def hooks_plain_def keys_stable_def svz_def)
  from sentinel_pair_roundtrip [of 0 env_none world0 0 Map.empty pair_source _ world0
      "VObj [(''b'', VSet [VNull, VMap [(VStr ''k'', VArr [VStr ''_'', VStr ''_''])]])]"
      "[Key ''b'', Member 1, MapValue 0]"]
    sentinel_pair_roundtrip [of 0 env_none world0 0 Map.empty test_source]
    rt_ok_test_source t s d h
  show ?thesis by simp
qed

text \<open>C5 as stated fails: an input can hold the sentinel pair and make the encoder throw.
  For \<^verbatim>\<open>[1n, ['_', '_']]\<close> \<^verbatim>\<open>JSON.stringify\<close> throws a TypeError at the BigInt.\<close>

theorem sentinel_pair_roundtrip_counterexample:
  "at_path (VArr [VBigInt 1, VArr [VStr ''_'', VStr ''_'']]) [Index 1]
     = Some (VArr [VStr ''_'', VStr ''_''])
   \<and> serializer 0 env_none world0 (VArr [VBigInt 1, VArr [VStr ''_'', VStr ''_'']])
       = Inl TypeError"
  by (simp add: serializer.simps)

subsection \<open>Functions\<close>

text \<open>
  C6.  Encoding a function makes a fresh channel: the data is \<^verbatim>\<open>['_', '_fn', port2]\<close>,
  the second port is the one transferable and the first port the one revokable.  A
  function that is the cause of an Error is encoded by the inner call of line 81, whose
  transferables and revokables are dropped: the data holds the second port of the fresh
  channel, and both arrays returned are empty.
\<close>

theorem function_channel:
  "serializer f en w (VFn g) =
     Inr (\<lparr>data = VArr [VStr ''_'', VStr ''_fn'', VPort (next_chan w) Port2],
           res_transferables = [VPort (next_chan w) Port2],
           res_revokables = [VPort (next_chan w) Port1]\<rparr>,
          w\<lparr>next_chan := Suc (next_chan w),
            handlers := handlers w @ [(next_chan w, VFn g)]\<rparr>)
   \<and> serializer f en w (VErr i name (VFn g)) =
     Inr (\<lparr>data = VArr [VStr ''_'', VStr ''_err'',
                        VErr i name (VArr [VStr ''_'', VStr ''_fn'', VPort (next_chan w) Port2]),
                        VStr name],
           res_transferables = [], res_revokables = []\<rparr>,
          w\<lparr>next_chan := Suc (next_chan w),
            handlers := handlers w @ [(next_chan w, VFn g)],
            writes := writes w @ [(i, VArr [VStr ''_'', VStr ''_fn'', VPort (next_chan w) Port2])]\<rparr>)"
proof -
  have 1: "serializer f en w (VFn g) =
     Inr (\<lparr>data = VArr [VStr ''_'', VStr ''_fn'', VPort (next_chan w) Port2],
           res_transferables = [VPort (next_chan w) Port2],
           res_revokables = [VPort (next_chan w) Port1]\<rparr>,
          w\<lparr>next_chan := Suc (next_chan w),
            handlers := handlers w @ [(next_chan w, VFn g)]\<rparr>)" for w
    by (simp add: serializer.simps enc_reviver_def push_def set_add_def ref_json_def
        is_index_def Let_def)
  show ?thesis
    by (simp add: 1 serializer_err_eq)
qed

theorem function_channel_witness:
  "serializer 0 env_none world0 (VFn 7) =
     Inr (\<lparr>data = VArr [VStr ''_'', VStr ''_fn'', VPort 0 Port2],
           res_transferables = [VPort 0 Port2], res_revokables = [VPort 0 Port1]\<rparr>,
          \<lparr>next_chan = 1, handlers = [(0, VFn 7)], writes = []\<rparr>)
   \<and> serializer 0 env_none world0 (VErr 1 ''Error'' (VFn 7)) =
     Inr (\<lparr>data = VArr [VStr ''_'', VStr ''_err'',
                        VErr 1 ''Error'' (VArr [VStr ''_'', VStr ''_fn'', VPort 0 Port2]),
                        VStr ''Error''],
           res_transferables = [], res_revokables = []\<rparr>,
          \<lparr>next_chan = 1, handlers = [(0, VFn 7)],
            writes = [(1, VArr [VStr ''_'', VStr ''_fn'', VPort 0 Port2])]\<rparr>)"
  using function_channel [of 0 env_none world0 7 1 "''Error''"]
  by (simp add: world0_def)

end
